theory Spec2Isabelle
  imports Complex_Main "HOL-Library.Word" "HOL-Library.Sublist"
begin

unbundle bit_operations_syntax

section \<open>Strings and markers\<close>

text \<open>
  \<open>std::string\<close> is a byte sequence, modelled as \<open>string\<close> (a \<open>char list\<close>).
  Identifiers and counters are the fixed-width unsigned integers of the source.
\<close>

type_synonym u8 = "8 word"
type_synonym u32 = "32 word"
type_synonym u64 = "64 word"

definition NL :: char where "NL = CHR 0x0A"
definition CR :: char where "CR = CHR 0x0D"
definition SQ :: char where "SQ = CHR 0x27"

text \<open>\<open>std::to_string\<close> on an unsigned integer: its decimal digits, no sign, no padding.\<close>

definition digit_char :: "nat \<Rightarrow> char" where
  "digit_char d = ''0123456789'' ! d"

function to_string :: "nat \<Rightarrow> string" where
  "to_string n = (if n < 10 then [digit_char n] else to_string (n div 10) @ [digit_char (n mod 10)])"
  by pat_completeness auto
termination
  by (relation "measure id") auto

declare to_string.simps [simp del]

text \<open>
  The marker strings, as both \<open>build_pwsh_packet\<close> and \<open>submit\<close> spell them:
  \<open>"<<<SS_BEG_" + std::to_string(id) + ">>>"\<close>.
\<close>

definition beginMarker_of :: "u64 \<Rightarrow> string" where
  "beginMarker_of i = ''<<<SS_BEG_'' @ to_string (unat i) @ ''>>>''"

definition endMarker_of :: "u64 \<Rightarrow> string" where
  "endMarker_of i = ''<<<SS_END_'' @ to_string (unat i) @ ''>>>''"

text \<open>The lambda \<open>ps_quote_single\<close>: wrap in single quotes, doubling every single quote.\<close>

fun ps_quote_body :: "string \<Rightarrow> string" where
  "ps_quote_body [] = []"
| "ps_quote_body (c # s) = (if c = SQ then [SQ, SQ] else [c]) @ ps_quote_body s"

definition ps_quote_single :: "string \<Rightarrow> string" where
  "ps_quote_single s = [SQ] @ ps_quote_body s @ [SQ]"

text \<open>
  \<open>VirtualShell::build_pwsh_packet\<close>. The newline test looks at the last byte of the
  packet built so far (\<open>full.back()\<close>), not at the last byte of the command.
\<close>

definition build_pwsh_packet :: "u64 \<Rightarrow> string \<Rightarrow> string" where
  "build_pwsh_packet i cmd =
     (let beg = ''<<<SS_BEG_'' @ to_string (unat i) @ ''>>>'';
          en = ''<<<SS_END_'' @ to_string (unat i) @ ''>>>'';
          full1 = ''[Console]::Out.WriteLine('' @ ps_quote_single beg @ '')'' @ [NL];
          full2 = full1 @ cmd;
          full3 = (if full2 = [] \<or> last full2 \<noteq> NL then full2 @ [NL] else full2)
      in full3 @ ''[Console]::Out.WriteLine('' @ ps_quote_single en @ '')'' @ [NL])"


section \<open>Command tracker: data model\<close>

text \<open>
  \<open>struct ExecutionResult\<close>. Times are monotonic clock readings in integer ticks; the
  source converts the difference to seconds in a \<open>double\<close>, which the model keeps as the
  tick difference.
\<close>

record ExecutionResult =
  out :: string
  err :: string
  exitCode :: int
  success :: bool
  executionTime :: int

text \<open>
  A completion callback (\<open>std::function<void(const ExecutionResult&)>\<close>). All the
  tracker can observe of it is whether a call returns or throws.
\<close>

datatype callback = Callback (throws: bool)

datatype error = PromiseAlreadySatisfied | CallbackException

text \<open>
  \<open>struct CmdState\<close>. \<open>prom\<close> is the shared state of the promise: \<open>None\<close> while
  unsatisfied. \<open>tDeadline = None\<close> stands for \<open>clock::time_point::max()\<close>. \<open>timeoutSec\<close>
  is a \<open>double\<close> number of seconds in the source and a rational number here; \<open>tStart\<close> and
  \<open>tDeadline\<close> are clock readings in ticks.
\<close>

record CmdState =
  cmd_id :: u64
  prom :: "ExecutionResult option"
  outBuf :: string
  errBuf :: string
  beginMarker :: string
  endMarker :: string
  begun :: bool
  preBuf :: string
  is_done :: bool
  timedOut :: bool
  timeoutSec :: rat
  cb :: "callback option"
  tStart :: int
  tDeadline :: "int option"

text \<open>
  What the tracker does that is visible outside its state, in program order: a promise
  is satisfied, a callback is called; and, to state in which order the bookkeeping
  happens, the three container operations on a command: its registration in the
  in-flight map and FIFO, the enqueueing of its packet, and its removal from the map.
\<close>

datatype event =
    Registered u64
  | Enqueued u64 string
  | PromiseSet u64 ExecutionResult
  | CallbackCalled u64 ExecutionResult
  | Erased u64

text \<open>
  The members of \<open>VirtualShell\<close> that the tracker reads and writes. \<open>sharedOwned\<close> is not
  a member: it says whether the object is held by a \<open>std::shared_ptr\<close>, which is what
  \<open>weak_from_this().expired()\<close> tests.
\<close>

record VirtualShell =
  sharedOwned :: bool
  lifecycleGate :: bool
  isRunning :: bool
  isRestarting :: bool
  seq :: u64
  inflight :: "u64 \<rightharpoonup> CmdState"
  inflightOrder :: "u64 list"
  inflightCount :: u32
  highWater :: u32
  writeQueue :: "string list"
  pendingTimeoutSentinels :: u32
  config_timeoutSeconds :: int
  config_autoRestartOnTimeout :: bool
  trace :: "event list"

text \<open>The future handed back by \<open>submit\<close>: already holding a value, or bound to a command.\<close>

datatype future = Ready ExecutionResult | Pending u64

section \<open>String primitives\<close>

text \<open>\<open>std::string::find(needle)\<close> from position 0; \<open>None\<close> is \<open>npos\<close>.\<close>

fun str_find :: "string \<Rightarrow> string \<Rightarrow> nat option" where
  "str_find [] n = (if n = [] then Some 0 else None)"
| "str_find (x # xs) n =
     (if take (length n) (x # xs) = n then Some 0 else map_option Suc (str_find xs n))"

text \<open>
  The two statements after a marker was found,
  \<open>if (p < buf.size() && buf[p] == '\r') ++p; if (p < buf.size() && buf[p] == '\n') ++p;\<close>
\<close>

definition skip_crlf :: "string \<Rightarrow> nat \<Rightarrow> nat" where
  "skip_crlf buf p =
     (let p1 = (if p < length buf \<and> buf ! p = CR then p + 1 else p)
      in if p1 < length buf \<and> buf ! p1 = NL then p1 + 1 else p1)"

definition CAP :: nat where "CAP = 256 * 1024"

definition INTERNAL_TIMEOUT_SENTINEL :: string where
  "INTERNAL_TIMEOUT_SENTINEL = ''__VS_INTERNAL_TIMEOUT__''"


section \<open>Command tracker: operations\<close>

text \<open>
  \<open>std::promise::set_value\<close> throws when the promise is already satisfied;
  calling a callback may throw. Both are values here, and every \<open>try { ... } catch (...) {}\<close>
  of the source is the case distinction that discards the \<open>Inl\<close>.
\<close>

definition set_value :: "ExecutionResult \<Rightarrow> CmdState \<Rightarrow> error + CmdState" where
  "set_value r S = (case prom S of None \<Rightarrow> Inr (S\<lparr>prom := Some r\<rparr>) | Some _ \<Rightarrow> Inl PromiseAlreadySatisfied)"

definition invoke_cb :: "callback \<Rightarrow> ExecutionResult \<Rightarrow> error + unit" where
  "invoke_cb c r = (if throws c then Inl CallbackException else Inr ())"

text \<open>
  The tail shared by \<open>completeCmdLocked_\<close> and \<open>fulfillTimeout_\<close>:
  \<open>try { S.prom.set_value(r); } catch (...) {}  if (S.cb) { try { S.cb(r); } catch (...) {} }\<close>.
  It returns the record and the events it caused.
\<close>

definition resolve_and_notify :: "ExecutionResult \<Rightarrow> CmdState \<Rightarrow> CmdState \<times> event list" where
  "resolve_and_notify r S =
     (let (S1, e1) = (case set_value r S of
                        Inr S' \<Rightarrow> (S', [PromiseSet (cmd_id S) r])
                      | Inl _ \<Rightarrow> (S, []));
          e2 = (case cb S1 of
                  None \<Rightarrow> []
                | Some c \<Rightarrow> (case invoke_cb c r of Inr _ \<Rightarrow> [CallbackCalled (cmd_id S) r]
                                                  | Inl _ \<Rightarrow> [CallbackCalled (cmd_id S) r]))
      in (S1, e1 @ e2))"

text \<open>
  \<open>VirtualShell::completeCmdLocked_(S, success)\<close>, with \<open>now\<close> the clock reading it
  takes. The buffers are moved into the result, which leaves them empty in the record.
\<close>

definition completeCmdLocked :: "int \<Rightarrow> bool \<Rightarrow> CmdState \<Rightarrow> CmdState \<times> event list" where
  "completeCmdLocked now succ S =
     (if is_done S then (S, [])
      else
        let S1 = S\<lparr>is_done := True\<rparr>;
            r_success = (succ \<and> \<not> timedOut S1);
            r = \<lparr>out = outBuf S1, err = errBuf S1,
                 exitCode = (if r_success then 0 else -1),
                 success = r_success,
                 executionTime = now - tStart S1\<rparr>;
            S2 = S1\<lparr>outBuf := [], errBuf := []\<rparr>
        in resolve_and_notify r S2)"

text \<open>
  \<open>VirtualShell::requestRestartAsync_\<close>: the early return when the object is not held by
  a shared pointer, then the compare-and-swap on the lifecycle gate. The restart itself
  runs on a detached thread and is outside this model; the thread is taken to start
  (when \<open>std::thread\<close> throws, the source opens the gate again).
\<close>

definition requestRestartAsync :: "VirtualShell \<Rightarrow> VirtualShell" where
  "requestRestartAsync s =
     (if \<not> sharedOwned s then s
      else if lifecycleGate s then s else s\<lparr>lifecycleGate := True\<rparr>)"

text \<open>
  \<open>VirtualShell::fulfillTimeout_(st, expectSentinel)\<close>. The record arrives moved out of the
  map (\<open>None\<close> is the null pointer) and is destroyed when the function returns.
  \<open>timeout_result\<close> is the result it builds: no stdout, the collected stderr or the word
  \<open>timeout\<close>, exit code \<open>-1\<close>.
\<close>

definition timeout_result :: "CmdState \<Rightarrow> ExecutionResult" where
  "timeout_result S =
     \<lparr>out = [], err = (if errBuf S = [] then ''timeout'' else errBuf S),
      exitCode = -1, success = False, executionTime = 0\<rparr>"

definition fulfillTimeout :: "CmdState option \<Rightarrow> bool \<Rightarrow> VirtualShell \<Rightarrow> VirtualShell" where
  "fulfillTimeout st expectSentinel s =
     (case st of
        None \<Rightarrow> s
      | Some S \<Rightarrow>
          let s1 = (if expectSentinel
                    then s\<lparr>pendingTimeoutSentinels := pendingTimeoutSentinels s + 1\<rparr> else s);
              s2 = s1\<lparr>inflightCount := inflightCount s1 - 1\<rparr>;
              r = timeout_result S;
              s3 = (if config_autoRestartOnTimeout s2
                    then (requestRestartAsync s2)\<lparr>isRestarting := True\<rparr> else s2);
              S1 = S\<lparr>is_done := True\<rparr>;
              (S2, ev) = resolve_and_notify r S1
          in s3\<lparr>trace := trace s3 @ ev\<rparr>)"

text \<open>
  Removing an identifier from the FIFO as \<open>timeoutOne_\<close> and the stderr path do:
  \<open>pop_front\<close> when it is the head, else erase the first occurrence found.
\<close>

definition drop_from_order :: "u64 \<Rightarrow> u64 list \<Rightarrow> u64 list" where
  "drop_from_order i q = (if q \<noteq> [] \<and> hd q = i then tl q else remove1 i q)"

text \<open>
  \<open>VirtualShell::timeoutOne_(id)\<close>: under the state lock the record is moved out of the
  map, flagged, and erased from map and FIFO; the promise is fulfilled after the lock
  is released.
\<close>

definition timeoutOne_locked :: "u64 \<Rightarrow> VirtualShell \<Rightarrow> CmdState option \<times> VirtualShell" where
  "timeoutOne_locked i s =
     (case inflight s i of
        None \<Rightarrow> (None, s)
      | Some S \<Rightarrow>
          (Some (S\<lparr>timedOut := True\<rparr>),
           s\<lparr>inflight := (inflight s)(i := None),
             inflightOrder := drop_from_order i (inflightOrder s),
             trace := trace s @ [Erased i]\<rparr>))"

definition timeoutOne :: "u64 \<Rightarrow> VirtualShell \<Rightarrow> VirtualShell" where
  "timeoutOne i s =
     (case timeoutOne_locked i s of
        (None, s1) \<Rightarrow> s1
      | (Some st, s1) \<Rightarrow> fulfillTimeout (Some st) True s1)"


text \<open>
  One pass of \<open>VirtualShell::timeoutScan_\<close> at clock reading \<open>now\<close>: collect, in FIFO
  order, the registered identifiers whose deadline has passed, then time each out.
\<close>

definition toExpire :: "int \<Rightarrow> VirtualShell \<Rightarrow> u64 list" where
  "toExpire now s =
     filter (\<lambda>i. case inflight s i of
                    None \<Rightarrow> False
                  | Some S \<Rightarrow> (case tDeadline S of None \<Rightarrow> False | Some d \<Rightarrow> now \<ge> d))
            (inflightOrder s)"

definition timeoutScan_pass :: "int \<Rightarrow> VirtualShell \<Rightarrow> VirtualShell" where
  "timeoutScan_pass now s = fold timeoutOne (toExpire now s) s"

subsection \<open>submit\<close>

definition restarting_result :: ExecutionResult where
  "restarting_result =
     \<lparr>out = [], err = ''PowerShell process is restarting'', exitCode = -2,
      success = False, executionTime = 0\<rparr>"

definition not_running_result :: ExecutionResult where
  "not_running_result =
     \<lparr>out = [], err = ''PowerShell process is not running'', exitCode = -3,
      success = False, executionTime = 0\<rparr>"

text \<open>
  \<open>std::chrono::duration_cast<clock::duration>(std::chrono::duration<double>(x))\<close>: seconds
  to clock ticks, truncated toward zero; \<open>steady_clock\<close> counts nanoseconds. The model
  computes with exact rationals and unbounded integers: the rounding of \<open>double\<close> and
  the range of the 64-bit tick count (about 9.2e9 seconds, beyond which the source's
  conversion is undefined) are outside it.
\<close>

definition ticks_per_second :: int where "ticks_per_second = 1000000000"

definition to_ticks :: "rat \<Rightarrow> int" where
  "to_ticks x =
     (if x \<ge> 0 then \<lfloor>x * of_int ticks_per_second\<rfloor> else \<lceil>x * of_int ticks_per_second\<rceil>)"

text \<open>
  The record \<open>submit\<close> builds for identifier \<open>i\<close> at clock reading \<open>now\<close>, from the
  \<open>double timeoutSeconds\<close> of the call and the \<open>int timeoutSeconds\<close> of the configuration.
\<close>

definition new_CmdState :: "int \<Rightarrow> u64 \<Rightarrow> rat \<Rightarrow> callback option \<Rightarrow> int \<Rightarrow> CmdState" where
  "new_CmdState now i timeoutSeconds c cfg_timeout =
     (let ts = (if timeoutSeconds > 0 then timeoutSeconds else of_int cfg_timeout)
      in \<lparr>cmd_id = i, prom = None, outBuf = [], errBuf = [],
          beginMarker = ''<<<SS_BEG_'' @ to_string (unat i) @ ''>>>'',
          endMarker = ''<<<SS_END_'' @ to_string (unat i) @ ''>>>'',
          begun = False, preBuf = [], is_done = False, timedOut = False,
          timeoutSec = ts, cb = c, tStart = now,
          tDeadline = (if ts > 0 then Some (now + to_ticks ts) else None)\<rparr>)"

text \<open>
  The first locked block of \<open>submit\<close> (under \<open>stateMx_\<close>): \<open>inflight_.emplace\<close>, which
  keeps an entry that is already there, and \<open>inflightOrder_.push_back\<close>.
\<close>

definition submit_register :: "u64 \<Rightarrow> CmdState \<Rightarrow> VirtualShell \<Rightarrow> VirtualShell" where
  "submit_register i S s =
     s\<lparr>inflight := (case inflight s i of None \<Rightarrow> (inflight s)(i \<mapsto> S) | Some _ \<Rightarrow> inflight s),
       inflightOrder := inflightOrder s @ [i],
       trace := trace s @ [Registered i]\<rparr>"

text \<open>The in-flight counter and its high-water mark.\<close>

definition submit_count :: "VirtualShell \<Rightarrow> VirtualShell" where
  "submit_count s =
     (let n = inflightCount s + 1;
          s1 = s\<lparr>inflightCount := n\<rparr>
      in if n > highWater s1 then s1\<lparr>highWater := n\<rparr> else s1)"

text \<open>The second locked block (under \<open>writeMx_\<close>): the packet goes on the writer queue.\<close>

definition submit_enqueue :: "u64 \<Rightarrow> string \<Rightarrow> VirtualShell \<Rightarrow> VirtualShell" where
  "submit_enqueue i cmd s =
     (let pkt = build_pwsh_packet i cmd
      in s\<lparr>writeQueue := writeQueue s @ [pkt], trace := trace s @ [Enqueued i pkt]\<rparr>)"

text \<open>\<open>VirtualShell::submit(command, timeoutSeconds, cb, bypassRestart)\<close>.\<close>

definition submit ::
  "int \<Rightarrow> string \<Rightarrow> rat \<Rightarrow> callback option \<Rightarrow> bool \<Rightarrow> VirtualShell \<Rightarrow> future \<times> VirtualShell" where
  "submit now command timeoutSeconds c bypassRestart s =
     (if lifecycleGate s \<and> \<not> bypassRestart then (Ready restarting_result, s)
      else if \<not> isRunning s then (Ready not_running_result, s)
      else
        let i = seq s + 1;
            s1 = s\<lparr>seq := i\<rparr>;
            S = new_CmdState now i timeoutSeconds c (config_timeoutSeconds s1);
            s2 = submit_register i S s1;
            s3 = submit_count s2;
            s4 = submit_enqueue i command s3
        in (Pending i, s4))"

subsection \<open>onChunk: stderr\<close>

text \<open>
  The sentinel loop of the stderr branch. It returns the chunk with the handled
  sentinels erased, the tally of expected sentinels after the loop, and whether it
  stopped at a sentinel with the tally at zero (the case in which the source looks at
  \<open>st\<close>). A sentinel found is erased together with one optional CR and one optional LF.
\<close>

function strip_sentinels :: "string \<Rightarrow> u32 \<Rightarrow> string \<times> u32 \<times> bool" where
  "strip_sentinels chunk pending =
     (if chunk = [] then (chunk, pending, False)
      else case str_find chunk INTERNAL_TIMEOUT_SENTINEL of
        None \<Rightarrow> (chunk, pending, False)
      | Some pos \<Rightarrow>
          let eraseEnd = skip_crlf chunk (pos + length INTERNAL_TIMEOUT_SENTINEL);
              chunk' = take pos chunk @ drop eraseEnd chunk
          in if pending > 0 then strip_sentinels chunk' (pending - 1)
             else (chunk', pending, True))"
  by pat_completeness auto
termination
proof (relation "measure (\<lambda>(chunk, pending). length chunk)")
  show "wf (measure (\<lambda>(chunk, pending). length chunk))" by simp
next
  fix chunk :: string and pending :: u32 and pos eraseEnd chunk'
  assume ne: "chunk \<noteq> []"
    and f: "str_find chunk INTERNAL_TIMEOUT_SENTINEL = Some pos"
    and e: "eraseEnd = skip_crlf chunk (pos + length INTERNAL_TIMEOUT_SENTINEL)"
    and c: "chunk' = take pos chunk @ drop eraseEnd chunk"
  have bound: "\<And>h k. str_find h INTERNAL_TIMEOUT_SENTINEL = Some k \<Longrightarrow> k < length h"
  proof -
    fix h k show "str_find h INTERNAL_TIMEOUT_SENTINEL = Some k \<Longrightarrow> k < length h"
    proof (induction h arbitrary: k)
      case Nil
      then show ?case by (simp add: INTERNAL_TIMEOUT_SENTINEL_def)
    next
      case (Cons x xs)
      then show ?case by (auto split: if_splits)
    qed
  qed
  have "pos < length chunk" using bound[OF f] .
  moreover have "pos < eraseEnd"
    unfolding e skip_crlf_def Let_def by (simp add: INTERNAL_TIMEOUT_SENTINEL_def)
  ultimately have "length chunk' < length chunk" unfolding c by simp
  then show "((chunk', pending - 1), chunk, pending) \<in> measure (\<lambda>(chunk, pending). length chunk)"
    by simp
qed

declare strip_sentinels.simps [simp del]


text \<open>
  The stderr branch of \<open>VirtualShell::onChunk_\<close>. \<open>st\<close> is the record of the FIFO head,
  if the FIFO is not empty and the map has it.
\<close>

definition onChunk_stderr :: "string \<Rightarrow> VirtualShell \<Rightarrow> VirtualShell" where
  "onChunk_stderr sv s =
     (let stId = (if inflightOrder s \<noteq> [] then hd (inflightOrder s) else 0);
          st = (if inflightOrder s \<noteq> [] then inflight s stId else None);
          (chunk, pending, unexpected) = strip_sentinels sv (pendingTimeoutSentinels s);
          s1 = s\<lparr>pendingTimeoutSentinels := pending\<rparr>
      in case st of
           None \<Rightarrow> s1
         | Some S \<Rightarrow>
             let S1 = (if unexpected then S\<lparr>timedOut := True\<rparr> else S);
                 S2 = (if chunk \<noteq> [] then S1\<lparr>errBuf := errBuf S1 @ chunk\<rparr> else S1)
             in if unexpected
                then
                  let s2 = s1\<lparr>inflight := (inflight s1)(stId := None),
                              inflightOrder := drop_from_order stId (inflightOrder s1),
                              trace := trace s1 @ [Erased stId]\<rparr>
                  in fulfillTimeout (Some S2) False s2
                else s1\<lparr>inflight := (inflight s1)(stId \<mapsto> S2)\<rparr>)"

subsection \<open>onChunk: stdout\<close>

text \<open>
  The block \<open>if (!S.begun) { ... }\<close>: append the carry to \<open>preBuf\<close> and look for the begin
  marker. \<open>Inl\<close> is the \<open>break\<close> (marker not found, \<open>preBuf\<close> trimmed to its last \<open>CAP\<close>
  bytes); \<open>Inr\<close> carries the record and the bytes after the marker on to the end scan.
\<close>

definition scan_begin :: "CmdState \<Rightarrow> string \<Rightarrow> CmdState + CmdState \<times> string" where
  "scan_begin S carry =
     (if begun S then Inr (S, carry)
      else
        let S1 = S\<lparr>preBuf := preBuf S @ carry\<rparr>
        in case str_find (preBuf S1) (beginMarker S1) of
             None \<Rightarrow>
               Inl (if length (preBuf S1) > CAP
                    then S1\<lparr>preBuf := drop (length (preBuf S1) - CAP) (preBuf S1)\<rparr>
                    else S1)
           | Some bpos \<Rightarrow>
               let after = skip_crlf (preBuf S1) (bpos + length (beginMarker S1));
                   postBeg = (if after < length (preBuf S1) then drop after (preBuf S1) else [])
               in Inr (S1\<lparr>preBuf := [], begun := True\<rparr>, postBeg))"

text \<open>
  The end of the loop body once the end marker was found at \<open>mpos\<close> in the record \<open>S\<close> of
  the head \<open>i\<close>: cut the next carry, truncate \<open>outBuf\<close>, complete the command, erase it
  from the map, pop the FIFO, decrement the in-flight counter.
\<close>

definition finish_head :: "int \<Rightarrow> u64 \<Rightarrow> CmdState \<Rightarrow> nat \<Rightarrow> VirtualShell \<Rightarrow> string \<times> VirtualShell" where
  "finish_head now i S mpos s =
     (let tail = skip_crlf (outBuf S) (mpos + length (endMarker S));
          nextCarry = (if tail < length (outBuf S) then drop tail (outBuf S) else []);
          S1 = S\<lparr>outBuf := take mpos (outBuf S)\<rparr>;
          (S2, ev) = completeCmdLocked now True S1;
          s1 = s\<lparr>inflight := (inflight s)(i \<mapsto> S2), trace := trace s @ ev\<rparr>;
          s2 = s1\<lparr>inflight := (inflight s1)(i := None), trace := trace s1 @ [Erased i]\<rparr>;
          s3 = s2\<lparr>inflightOrder := tl (inflightOrder s2)\<rparr>;
          s4 = s3\<lparr>inflightCount := inflightCount s3 - 1\<rparr>
      in (nextCarry, s4))"

text \<open>
  The stdout loop of \<open>VirtualShell::onChunk_\<close>,
  \<open>while (!carry.empty() && !inflightOrder_.empty())\<close>.
\<close>

function stdout_loop :: "int \<Rightarrow> string \<Rightarrow> VirtualShell \<Rightarrow> VirtualShell" where
  "stdout_loop now carry s =
     (if carry = [] \<or> inflightOrder s = [] then s
      else
        let i = hd (inflightOrder s)
        in case inflight s i of
             None \<Rightarrow> stdout_loop now carry (s\<lparr>inflightOrder := tl (inflightOrder s)\<rparr>)
           | Some S \<Rightarrow>
               (case scan_begin S carry of
                  Inl S' \<Rightarrow> s\<lparr>inflight := (inflight s)(i \<mapsto> S')\<rparr>
                | Inr (S1, carry1) \<Rightarrow>
                    let S2 = S1\<lparr>outBuf := outBuf S1 @ carry1\<rparr>
                    in case str_find (outBuf S2) (endMarker S2) of
                         None \<Rightarrow> s\<lparr>inflight := (inflight s)(i \<mapsto> S2)\<rparr>
                       | Some mpos \<Rightarrow>
                           (case finish_head now i S2 mpos s of
                              (nextCarry, s') \<Rightarrow> stdout_loop now nextCarry s')))"
  by pat_completeness auto
termination
  by (relation "measure (\<lambda>(now, carry, s). length (inflightOrder s))")
     (auto simp: finish_head_def Let_def split: prod.splits)

declare stdout_loop.simps [simp del]

text \<open>\<open>VirtualShell::onChunk_(isErr, sv)\<close>, called at clock reading \<open>now\<close>.\<close>

definition onChunk :: "int \<Rightarrow> bool \<Rightarrow> string \<Rightarrow> VirtualShell \<Rightarrow> VirtualShell" where
  "onChunk now isErr sv s =
     (if sv = [] then s
      else if isErr then onChunk_stderr sv s
      else stdout_loop now sv s)"

subsection \<open>stop\<close>

text \<open>
  The part of \<open>VirtualShell::stop\<close> that touches the tracker. \<open>ks\<close> is the order in which
  \<open>for (auto &kv : inflight_)\<close> visits the keys, which \<open>std::unordered_map\<close> leaves open:
  a list of the keys of the map, each once (\<open>enumerates\<close>). For a list that leaves a key
  out the definition is not the source's loop, which visits every entry.
\<close>

definition enumerates :: "u64 list \<Rightarrow> VirtualShell \<Rightarrow> bool" where
  "enumerates ks s = (distinct ks \<and> set ks = dom (inflight s))"

definition stop_message :: string where
  "stop_message = ''Process stopped.'' @ [NL]"

definition fail_one :: "int \<Rightarrow> u64 \<Rightarrow> VirtualShell \<Rightarrow> VirtualShell" where
  "fail_one now k s =
     (case inflight s k of
        None \<Rightarrow> s
      | Some S \<Rightarrow>
          if is_done S then s
          else
            let S1 = S\<lparr>errBuf := errBuf S @ stop_message\<rparr>;
                (S2, ev) = completeCmdLocked now False S1
            in s\<lparr>inflight := (inflight s)(k \<mapsto> S2), trace := trace s @ ev\<rparr>)"

definition stop :: "int \<Rightarrow> u64 list \<Rightarrow> VirtualShell \<Rightarrow> VirtualShell" where
  "stop now ks s =
     (if \<not> isRunning s then s\<lparr>lifecycleGate := False\<rparr>
      else
        let s1 = s\<lparr>lifecycleGate := True\<rparr>;
            s2 = s1\<lparr>isRunning := False\<rparr>;
            s3 = fold (fail_one now) ks s2;
            s4 = s3\<lparr>inflight := Map.empty, trace := trace s3 @ map Erased ks\<rparr>;
            s5 = s4\<lparr>writeQueue := []\<rparr>
        in s5\<lparr>lifecycleGate := False\<rparr>)"


section \<open>Shared-memory bulk channel\<close>

text \<open>\<open>enum VS_Status : int32_t\<close>.\<close>

definition VS_OK :: int where "VS_OK = 0"
definition VS_TIMEOUT :: int where "VS_TIMEOUT = 1"
definition VS_WOULD_BLOCK :: int where "VS_WOULD_BLOCK = 2"
definition VS_SMALL_BUFFER :: int where "VS_SMALL_BUFFER = 3"
definition VS_INVALID_ARG :: int where "VS_INVALID_ARG = -1"
definition VS_SYS_ERROR :: int where "VS_SYS_ERROR = -2"
definition VS_BAD_STATE :: int where "VS_BAD_STATE = -3"

definition VS_HEADER_MAGIC :: u32 where "VS_HEADER_MAGIC = 0x4D485356"
definition VS_HEADER_VERSION :: u32 where "VS_HEADER_VERSION = 1"

definition MAGIC64 :: u64 where
  "MAGIC64 = push_bit 32 (ucast VS_HEADER_VERSION) OR ucast VS_HEADER_MAGIC"

definition INFINITE :: u32 where "INFINITE = 0xFFFFFFFF"

text \<open>
  \<open>struct VS_Header\<close> (128 bytes). \<open>magic\<close> and \<open>version\<close> share their storage with
  \<open>magic_and_version\<close> through the anonymous union: on the little-endian target
  \<open>magic\<close> is its low and \<open>version\<close> its high 32 bits. The offset and chunk fields
  that one revision of \<open>vs_shm.cpp\<close> stores lie inside \<open>reserved\<close>.
\<close>

record VS_Header =
  magic_and_version :: u64
  frame_bytes :: u64
  python_seq :: u64
  powershell_seq :: u64
  python_length :: u64
  powershell_length :: u64
  reserved :: "u64 list"

definition magic :: "VS_Header \<Rightarrow> u32" where
  "magic h = ucast (magic_and_version h)"

definition version :: "VS_Header \<Rightarrow> u32" where
  "version h = ucast (drop_bit 32 (magic_and_version h))"

definition set_magic :: "u32 \<Rightarrow> VS_Header \<Rightarrow> VS_Header" where
  "set_magic m h =
     h\<lparr>magic_and_version := push_bit 32 (drop_bit 32 (magic_and_version h)) OR ucast m\<rparr>"

definition set_version :: "u32 \<Rightarrow> VS_Header \<Rightarrow> VS_Header" where
  "set_version v h =
     h\<lparr>magic_and_version := push_bit 32 (ucast v) OR ucast (ucast (magic_and_version h) :: u32)\<rparr>"

text \<open>
  \<open>struct Channel\<close>: the mapped header, the two payload regions (PY\<rightarrow>PS first, PS\<rightarrow>PY
  second) and the reader's last consumed sequence numbers. The mutex and the four
  events are operating-system objects; what a wait on them returns is an argument of
  the operations.
\<close>

record Channel =
  hdr :: VS_Header
  py2p :: "u8 list"
  ps2p :: "u8 list"
  last_python_seq_read :: u64
  last_powershell_seq_read :: u64

datatype wait_rc = WAIT_OBJECT_0 | WAIT_TIMEOUT | WAIT_FAILED | WAIT_ABANDONED

definition lock_mutex :: "wait_rc \<Rightarrow> int" where
  "lock_mutex w = (if w = WAIT_OBJECT_0 then VS_OK else if w = WAIT_TIMEOUT then VS_TIMEOUT else VS_SYS_ERROR)"

text \<open>\<open>map_layout\<close>: fails on a zero frame size or a total that does not fit \<open>SIZE_T\<close>.\<close>

definition map_layout :: "VS_Header \<Rightarrow> bool" where
  "map_layout h =
     (let frame = frame_bytes h
      in if frame = 0 then False
         else let total64 = 128 + frame + frame :: u64
              in \<not> (total64 > - 1))"

text \<open>\<open>ZeroMemory\<close> on the whole view, then the header as \<open>VS_OpenChannel\<close> writes it.\<close>

definition zero_header :: VS_Header where
  "zero_header =
     \<lparr>magic_and_version = 0, frame_bytes = 0, python_seq = 0, powershell_seq = 0,
      python_length = 0, powershell_length = 0, reserved = replicate 10 0\<rparr>"

definition init_header :: "u64 \<Rightarrow> VS_Header" where
  "init_header fb =
     (let h1 = set_magic VS_HEADER_MAGIC zero_header;
          h2 = set_version VS_HEADER_VERSION h1;
          h3 = h2\<lparr>magic_and_version := MAGIC64\<rparr>;
          h4 = h3\<lparr>frame_bytes := fb\<rparr>
      in h4\<lparr>python_seq := 0, powershell_seq := 0, python_length := 0, powershell_length := 0\<rparr>)"

text \<open>
  \<open>VS_OpenChannel(name, frame_bytes, num_slots, use_global_fallback)\<close>. \<open>name_given\<close> says
  whether \<open>name\<close> is non-null. \<open>view\<close> is what \<open>CreateFileMappingW\<close> and \<open>MapViewOfFile\<close>
  deliver: \<open>None\<close> when either fails, else the bytes of the view as header and regions
  (all zero for a mapping the call created). \<open>sync_ok\<close> says whether the mutex and the
  four events could all be created or opened. \<open>None\<close> is the null return. The size
  \<open>total64\<close> is computed in 64 bits as in the source. The definition is the source for
  a view whose two regions have \<open>frame_bytes\<close> bytes each, which needs
  \<open>128 + 2 * frame_bytes < 2 ^ 64\<close>: for a larger \<open>frame_bytes\<close> the sum wraps, the view
  is shorter than the regions, and the warm-up read of the source, which the definition
  leaves out, lies outside the view.
\<close>

definition VS_OpenChannel ::
  "bool \<Rightarrow> u64 \<Rightarrow> u32 \<Rightarrow> (VS_Header \<times> u8 list \<times> u8 list) option \<Rightarrow> bool \<Rightarrow> Channel option" where
  "VS_OpenChannel name_given fb num_slots view sync_ok =
     (if \<not> name_given \<or> fb = 0 \<or> num_slots = 0 then None
      else if num_slots \<noteq> 1 then None
      else
        let total64 = 128 + fb * ucast num_slots * 2 :: u64
        in if total64 > - 1 then None
           else case view of
             None \<Rightarrow> None
           | Some (h, a, b) \<Rightarrow>
               if magic_and_version h \<noteq> MAGIC64
               then
                 let ch = \<lparr>hdr = init_header fb, py2p = map (\<lambda>_. 0) a, ps2p = map (\<lambda>_. 0) b,
                            last_python_seq_read = 0, last_powershell_seq_read = 0\<rparr>
                 in if \<not> map_layout (hdr ch) then None
                    else if \<not> sync_ok then None
                    else Some ch
               else if frame_bytes h \<noteq> fb then None
               else
                 let ch = \<lparr>hdr = h, py2p = a, ps2p = b,
                            last_python_seq_read = 0, last_powershell_seq_read = 0\<rparr>
                 in if \<not> map_layout (hdr ch) then None
                    else if \<not> sync_ok then None
                    else Some ch)"


text \<open>\<open>memcpy(dst, src, len)\<close> into the start of a region.\<close>

definition memcpy :: "u8 list \<Rightarrow> u8 list \<Rightarrow> nat \<Rightarrow> u8 list" where
  "memcpy dst src n = take n src @ drop n dst"

text \<open>
  \<open>write_direction(c, ps_to_py, data, len, timeout_ms, next_seq)\<close>. \<open>c\<close> and \<open>data\<close> are
  \<open>None\<close> for null pointers, \<open>want_seq\<close> says whether \<open>next_seq\<close> is non-null, and \<open>w\<close> is
  what the wait on the mutex returns (which is all that \<open>timeout_ms\<close> influences). The
  result is the status, the value stored through \<open>next_seq\<close>, and the channel.
\<close>

definition write_direction ::
  "Channel option \<Rightarrow> bool \<Rightarrow> u8 list option \<Rightarrow> u64 \<Rightarrow> wait_rc \<Rightarrow> bool
     \<Rightarrow> int \<times> u64 option \<times> Channel option" where
  "write_direction co ps_to_py data len w want_seq =
     (case co of
        None \<Rightarrow> (VS_INVALID_ARG, None, None)
      | Some c \<Rightarrow>
          if len > frame_bytes (hdr c) then (VS_INVALID_ARG, None, Some c)
          else if len > 0 \<and> data = None then (VS_INVALID_ARG, None, Some c)
          else
            let lk = lock_mutex w
            in if lk \<noteq> VS_OK then (lk, None, Some c)
               else
                 let c1 = (if len > 0
                           then (if ps_to_py
                                 then c\<lparr>ps2p := memcpy (ps2p c) (the data) (unat len)\<rparr>
                                 else c\<lparr>py2p := memcpy (py2p c) (the data) (unat len)\<rparr>)
                           else c);
                     h1 = (if ps_to_py then (hdr c1)\<lparr>powershell_length := len\<rparr>
                           else (hdr c1)\<lparr>python_length := len\<rparr>);
                     h2 = (if ps_to_py then h1\<lparr>powershell_seq := powershell_seq h1 + 1\<rparr>
                           else h1\<lparr>python_seq := python_seq h1 + 1\<rparr>);
                     seq_value = (if ps_to_py then powershell_seq h2 else python_seq h2)
                 in (VS_OK, (if want_seq then Some seq_value else None), Some (c1\<lparr>hdr := h2\<rparr>)))"

text \<open>
  The wait loop of \<open>read_direction\<close> when the sequence counter has not advanced and the
  timeout is not zero. A call is taken as one step: no other process writes the mapping
  while it runs, so the counter stays where it is and the loop can only end by the
  timeout expiring or by a failing wait on the request event (which only the PS\<rightarrow>PY
  reader waits on). \<open>None\<close>: the call does not return.
\<close>

definition blocked_read :: "bool \<Rightarrow> u32 \<Rightarrow> bool \<Rightarrow> int option" where
  "blocked_read read_py_to_ps timeout_ms wait_fails =
     (if \<not> read_py_to_ps \<and> wait_fails then Some VS_SYS_ERROR
      else if timeout_ms = INFINITE then None
      else Some VS_TIMEOUT)"

text \<open>
  \<open>read_direction(c, read_py_to_ps, dst, cap, out_len, timeout_ms)\<close>. \<open>dst_given\<close> and
  \<open>out_len_given\<close> say whether the pointers are non-null; \<open>w\<close> is what the wait on the
  mutex returns. The result is the status, the value stored through \<open>out_len\<close> (if any),
  the bytes copied to \<open>dst\<close> (if any), and the channel.
\<close>

definition read_direction ::
  "Channel option \<Rightarrow> bool \<Rightarrow> bool \<Rightarrow> u64 \<Rightarrow> bool \<Rightarrow> u32 \<Rightarrow> bool \<Rightarrow> wait_rc
     \<Rightarrow> (int \<times> u64 option \<times> u8 list option \<times> Channel option) option" where
  "read_direction co read_py_to_ps dst_given cap out_len_given timeout_ms wait_fails w =
     (case co of
        None \<Rightarrow> Some (VS_INVALID_ARG, None, None, None)
      | Some c \<Rightarrow>
          if \<not> out_len_given then Some (VS_INVALID_ARG, None, None, Some c)
          else
            let src = (if read_py_to_ps then py2p c else ps2p c);
                last_seq = (if read_py_to_ps then last_python_seq_read c
                            else last_powershell_seq_read c);
                seq_value = (if read_py_to_ps then python_seq (hdr c) else powershell_seq (hdr c));
                len_value = (if read_py_to_ps then python_length (hdr c)
                             else powershell_length (hdr c))
            in if \<not> seq_value > last_seq
               then (if timeout_ms = 0 then Some (VS_TIMEOUT, None, None, Some c)
                     else map_option (\<lambda>st. (st, None, None, Some c))
                            (blocked_read read_py_to_ps timeout_ms wait_fails))
               else
                 let lk = lock_mutex w
                 in if lk \<noteq> VS_OK then Some (lk, None, None, Some c)
                    else if len_value > frame_bytes (hdr c)
                    then Some (VS_BAD_STATE, None, None, Some c)
                    else if dst_given \<and> cap < len_value
                    then Some (VS_SMALL_BUFFER, Some len_value, None, Some c)
                    else
                      let copied = (if dst_given
                                    then Some (if len_value > 0 then take (unat len_value) src else [])
                                    else None);
                          c1 = (if read_py_to_ps then c\<lparr>last_python_seq_read := seq_value\<rparr>
                                else c\<lparr>last_powershell_seq_read := seq_value\<rparr>)
                      in Some (VS_OK, Some len_value, copied, Some c1))"

text \<open>The four exported wrappers.\<close>

definition VS_WritePs2Py where "VS_WritePs2Py co data len w want_seq = write_direction co True data len w want_seq"
definition VS_WritePy2Ps where "VS_WritePy2Ps co data len w want_seq = write_direction co False data len w want_seq"
definition VS_ReadPy2Ps where
  "VS_ReadPy2Ps co dst_given cap out_len_given timeout_ms wait_fails w =
     read_direction co True dst_given cap out_len_given timeout_ms wait_fails w"
definition VS_ReadPs2Py where
  "VS_ReadPs2Py co dst_given cap out_len_given timeout_ms wait_fails w =
     read_direction co False dst_given cap out_len_given timeout_ms wait_fails w"


text \<open>The fields of one direction (\<open>True\<close>: PY\<rightarrow>PS, \<open>False\<close>: PS\<rightarrow>PY), for the statements below.\<close>

definition dir_seq :: "bool \<Rightarrow> Channel \<Rightarrow> u64" where
  "dir_seq py c = (if py then python_seq (hdr c) else powershell_seq (hdr c))"

definition dir_length :: "bool \<Rightarrow> Channel \<Rightarrow> u64" where
  "dir_length py c = (if py then python_length (hdr c) else powershell_length (hdr c))"

definition dir_last :: "bool \<Rightarrow> Channel \<Rightarrow> u64" where
  "dir_last py c = (if py then last_python_seq_read c else last_powershell_seq_read c)"

definition dir_region :: "bool \<Rightarrow> Channel \<Rightarrow> u8 list" where
  "dir_region py c = (if py then py2p c else ps2p c)"

text \<open>
  A run of channel operations on one handle. A read that does not return leaves the
  channel as it is.
\<close>

datatype chan_op =
    Write bool "u8 list option" u64 wait_rc bool
  | Read bool bool u64 bool u32 bool wait_rc

fun apply_op :: "chan_op \<Rightarrow> Channel \<Rightarrow> Channel" where
  "apply_op (Write ps_to_py data len w want_seq) c =
     (case write_direction (Some c) ps_to_py data len w want_seq of
        (_, _, Some c') \<Rightarrow> c' | (_, _, None) \<Rightarrow> c)"
| "apply_op (Read read_py_to_ps dst_given cap out_len_given timeout_ms wait_fails w) c =
     (case read_direction (Some c) read_py_to_ps dst_given cap out_len_given timeout_ms wait_fails w of
        Some (_, _, _, Some c') \<Rightarrow> c' | _ \<Rightarrow> c)"

definition run_ops :: "chan_op list \<Rightarrow> Channel \<Rightarrow> Channel" where
  "run_ops ops c = fold apply_op ops c"

definition set_dir_last :: "bool \<Rightarrow> u64 \<Rightarrow> Channel \<Rightarrow> Channel" where
  "set_dir_last py v c =
     (if py then c\<lparr>last_python_seq_read := v\<rparr> else c\<lparr>last_powershell_seq_read := v\<rparr>)"

text \<open>
  A channel for the examples: frames of 8 bytes, one unread PY\<rightarrow>PS payload of 3 bytes,
  nothing written PS\<rightarrow>PY.
\<close>

definition chan0 :: Channel where
  "chan0 =
     \<lparr>hdr = \<lparr>magic_and_version = 0x14D485356, frame_bytes = 8, python_seq = 1,
             powershell_seq = 0, python_length = 3, powershell_length = 0,
             reserved = replicate 10 0\<rparr>,
      py2p = [1, 2, 3, 0, 0, 0, 0, 0], ps2p = [0, 0, 0, 0, 0, 0, 0, 0],
      last_python_seq_read = 0, last_powershell_seq_read = 0\<rparr>"

text \<open>The same channel with the PY\<rightarrow>PS sequence counter at its largest value.\<close>

definition chan_max :: Channel where
  "chan_max = chan0\<lparr>hdr := (hdr chan0)\<lparr>python_seq := 0xFFFFFFFFFFFFFFFF\<rparr>\<rparr>"

section \<open>Notions used in the statements about the tracker\<close>

text \<open>
  The line that makes the interpreter print a literal marker \<open>m\<close> on its standard output,
  and the packet as the specification describes it: the begin line, the body, a newline
  if and only if the body does not already end in one, the end line.
\<close>

definition print_line :: "string \<Rightarrow> string" where
  "print_line m = ''[Console]::Out.WriteLine('' @ [SQ] @ m @ [SQ] @ '')'' @ [NL]"

definition ends_in_newline :: "string \<Rightarrow> bool" where
  "ends_in_newline C = (C \<noteq> [] \<and> last C = NL)"

definition spec_packet :: "u64 \<Rightarrow> string \<Rightarrow> string" where
  "spec_packet i C =
     print_line (beginMarker_of i) @ C @ (if ends_in_newline C then [] else [NL])
     @ print_line (endMarker_of i)"

text \<open>A running shell with nothing in flight, for the examples.\<close>

definition shell0 :: VirtualShell where
  "shell0 =
     \<lparr>sharedOwned = True, lifecycleGate = False, isRunning = True, isRestarting = False, seq = 0,
      inflight = Map.empty, inflightOrder = [], inflightCount = 0, highWater = 0,
      writeQueue = [], pendingTimeoutSentinels = 0, config_timeoutSeconds = 30,
      config_autoRestartOnTimeout = True, trace = []\<rparr>"

text \<open>
  A record for the examples: command 1, begun, with some output and error text
  collected, a callback that throws, started at tick 5.
\<close>

definition cmd1 :: CmdState where
  "cmd1 =
     \<lparr>cmd_id = 1, prom = None, outBuf = ''hi'', errBuf = ''warn'',
      beginMarker = ''<<<SS_BEG_1>>>'', endMarker = ''<<<SS_END_1>>>'',
      begun = True, preBuf = [], is_done = False, timedOut = False,
      timeoutSec = 30, cb = Some (Callback True), tStart = 5, tDeadline = Some 30000000005\<rparr>"

text \<open>
  Where a marker occurs in a buffer, and where it occurs first; and a byte string with
  one optional leading CR and one optional LF after it removed.
\<close>

definition occurs_at :: "string \<Rightarrow> string \<Rightarrow> nat \<Rightarrow> bool" where
  "occurs_at buf m k = (k \<le> length buf \<and> take (length m) (drop k buf) = m)"

definition first_occurrence :: "string \<Rightarrow> string \<Rightarrow> nat \<Rightarrow> bool" where
  "first_occurrence buf m k = (occurs_at buf m k \<and> (\<forall>j<k. \<not> occurs_at buf m j))"

definition strip_crlf :: "string \<Rightarrow> string" where
  "strip_crlf xs =
     (let ys = (case xs of [] \<Rightarrow> [] | c # r \<Rightarrow> if c = CR then r else xs)
      in case ys of [] \<Rightarrow> [] | c # r \<Rightarrow> if c = NL then r else ys)"

text \<open>The identifiers whose promises a trace satisfies, in the order in which it does.\<close>

fun resolved_ids :: "event list \<Rightarrow> u64 list" where
  "resolved_ids [] = []"
| "resolved_ids (PromiseSet i r # es) = i # resolved_ids es"
| "resolved_ids (e # es) = resolved_ids es"

text \<open>
  The commands in flight, in FIFO order: the identifiers in the FIFO that have a record
  in the map. The FIFO may hold identifiers that the map has lost: \<open>stop\<close> clears the map
  and leaves the FIFO as it is, and the stdout loop drops such an identifier when it
  reaches the head.
\<close>

definition live_order :: "VirtualShell \<Rightarrow> u64 list" where
  "live_order s = filter (\<lambda>i. inflight s i \<noteq> None) (inflightOrder s)"

text \<open>
  The state of the tracker between calls, as \<open>submit\<close>, the stdout demultiplexer and
  \<open>stop\<close> keep it: the FIFO has no duplicates, every identifier in it that has a record
  in the map has it filed under its own identifier, not done and with an unsatisfied
  promise, and no identifier in the FIFO or the map is beyond the last one allocated.
\<close>

definition tracker_ok :: "VirtualShell \<Rightarrow> bool" where
  "tracker_ok s =
     (distinct (inflightOrder s)
      \<and> (\<forall>i \<in> set (inflightOrder s). \<forall>S. inflight s i = Some S \<longrightarrow>
            cmd_id S = i \<and> \<not> is_done S \<and> prom S = None)
      \<and> (\<forall>i \<in> set (inflightOrder s). unat i \<le> unat (seq s))
      \<and> (\<forall>i \<in> dom (inflight s). unat i \<le> unat (seq s)))"

text \<open>
  A run without deadline expiry and without stop: callers submit commands and the
  stdout reader delivers chunks, each at its clock reading.
\<close>

datatype action =
    Submit int string rat "callback option" bool
  | Stdout int string

fun step :: "action \<Rightarrow> VirtualShell \<Rightarrow> VirtualShell" where
  "step (Submit now command timeoutSeconds c bypassRestart) s =
     snd (submit now command timeoutSeconds c bypassRestart s)"
| "step (Stdout now sv) s = onChunk now False sv s"

definition run_actions :: "action list \<Rightarrow> VirtualShell \<Rightarrow> VirtualShell" where
  "run_actions acts s = fold step acts s"

fun count_submits :: "action list \<Rightarrow> nat" where
  "count_submits [] = 0"
| "count_submits (Submit now command timeoutSeconds c bypassRestart # acts) = Suc (count_submits acts)"
| "count_submits (Stdout now sv # acts) = count_submits acts"

text \<open>The \<open>n\<close> identifiers allocated after \<open>q\<close>, in order.\<close>

definition fresh_ids :: "u64 \<Rightarrow> nat \<Rightarrow> u64 list" where
  "fresh_ids q n = map (\<lambda>k. q + of_nat k) [1..<Suc n]"

text \<open>The result the end-marker path delivers for a record whose output is \<open>body\<close>.\<close>

definition end_marker_result :: "int \<Rightarrow> CmdState \<Rightarrow> string \<Rightarrow> ExecutionResult" where
  "end_marker_result now S body =
     \<lparr>out = body, err = errBuf S, exitCode = (if timedOut S then - 1 else 0),
      success = (\<not> timedOut S), executionTime = now - tStart S\<rparr>"

text \<open>The events of satisfying the promise of \<open>S\<close> with \<open>r\<close> and calling its callback.\<close>

definition delivery :: "CmdState \<Rightarrow> ExecutionResult \<Rightarrow> event list" where
  "delivery S r =
     PromiseSet (cmd_id S) r
     # (case cb S of None \<Rightarrow> [] | Some c \<Rightarrow> [CallbackCalled (cmd_id S) r])"

text \<open>
  An example run: two commands are submitted, then the interpreter's output arrives in
  two chunks, the first holding noise, all of command 1's output and the start of
  command 2's, cutting command 2's end marker in two.
\<close>

definition chunk1 :: string where
  "chunk1 =
     ''noise<<<SS_BEG_1>>>'' @ [CR, NL] @ ''A'' @ [NL] @ ''<<<SS_END_1>>>'' @ [NL]
     @ ''<<<SS_BEG_2>>>B<<<SS_''"

definition chunk2 :: string where
  "chunk2 = ''END_2>>>''"

definition acts0 :: "action list" where
  "acts0 =
     [Submit 0 ''a'' 0 None False, Submit 1 ''b'' 0 (Some (Callback True)) False,
      Stdout 2 chunk1, Stdout 3 chunk2]"

text \<open>The records of the two commands as \<open>submit\<close> registers them, and the shell then.\<close>

definition rec1 :: CmdState where
  "rec1 =
     \<lparr>cmd_id = 1, prom = None, outBuf = [], errBuf = [],
      beginMarker = ''<<<SS_BEG_1>>>'', endMarker = ''<<<SS_END_1>>>'',
      begun = False, preBuf = [], is_done = False, timedOut = False,
      timeoutSec = 30, cb = None, tStart = 0, tDeadline = Some 30000000000\<rparr>"

definition rec2 :: CmdState where
  "rec2 =
     \<lparr>cmd_id = 2, prom = None, outBuf = [], errBuf = [],
      beginMarker = ''<<<SS_BEG_2>>>'', endMarker = ''<<<SS_END_2>>>'',
      begun = False, preBuf = [], is_done = False, timedOut = False,
      timeoutSec = 30, cb = Some (Callback True), tStart = 1, tDeadline = Some 30000000001\<rparr>"

definition shell2 :: VirtualShell where
  "shell2 =
     shell0\<lparr>seq := 2, inflight := [1 \<mapsto> rec1, 2 \<mapsto> rec2], inflightOrder := [1, 2],
            inflightCount := 2, highWater := 2\<rparr>"

text \<open>The shell with only command 2 in flight, begun, its output so far collected.\<close>

definition shell3 :: VirtualShell where
  "shell3 =
     shell0\<lparr>seq := 2, inflight := [2 \<mapsto> rec2\<lparr>begun := True, outBuf := ''B<<<SS_''\<rparr>],
            inflightOrder := [2], inflightCount := 1, highWater := 2\<rparr>"

text \<open>The result \<open>stop\<close> delivers for a record still in flight.\<close>

definition stop_result :: "int \<Rightarrow> CmdState \<Rightarrow> ExecutionResult" where
  "stop_result now S =
     \<lparr>out = outBuf S, err = errBuf S @ stop_message, exitCode = - 1,
      success = False, executionTime = now - tStart S\<rparr>"

text \<open>
  Whether a trace removes command \<open>i\<close> from the map while its promise is unresolved:
  its first event about \<open>i\<close>'s promise or removal is the removal.
\<close>

fun erased_unresolved :: "u64 \<Rightarrow> event list \<Rightarrow> bool" where
  "erased_unresolved i [] = False"
| "erased_unresolved i (PromiseSet j r # es) = (if j = i then False else erased_unresolved i es)"
| "erased_unresolved i (Erased j # es) = (if j = i then True else erased_unresolved i es)"
| "erased_unresolved i (e # es) = erased_unresolved i es"

text \<open>The shell with the example command 1 as its only command in flight.\<close>

definition shell1 :: VirtualShell where
  "shell1 =
     shell0\<lparr>seq := 1, inflight := [1 \<mapsto> cmd1], inflightOrder := [1], inflightCount := 1,
            highWater := 1\<rparr>"

text \<open>A marker that occurs nowhere in a buffer.\<close>

definition no_occurrence :: "string \<Rightarrow> string \<Rightarrow> bool" where
  "no_occurrence buf m = (\<forall>k \<le> length buf. \<not> occurs_at buf m k)"

text \<open>
  The stdout of a command as the specification frames it in the interpreter's output
  stream: what follows the begin marker and one optional CR and LF after it, up to the
  end marker.
\<close>

definition spec_stdout :: "string \<Rightarrow> string \<Rightarrow> string \<Rightarrow> string" where
  "spec_stdout stream beg en =
     (case str_find stream beg of
        None \<Rightarrow> []
      | Some b \<Rightarrow>
          let d = strip_crlf (drop (b + length beg) stream)
          in case str_find d en of None \<Rightarrow> [] | Some e \<Rightarrow> take e d)"

text \<open>
  The output stream of command 1 printing \<open>A\<close>, cut by the reader right after the begin
  marker, and the shell with command 1 alone in flight, as \<open>submit\<close> registers it.
\<close>

definition split1 :: string where
  "split1 = ''<<<SS_BEG_1>>>''"

definition split2 :: string where
  "split2 = [CR, NL] @ ''A'' @ [NL] @ ''<<<SS_END_1>>>'' @ [CR, NL]"

definition shellA :: VirtualShell where
  "shellA =
     shell0\<lparr>seq := 1, inflight := [1 \<mapsto> rec1], inflightOrder := [1], inflightCount := 1,
            highWater := 1\<rparr>"

text \<open>
  The number of timeout sentinels in a stderr chunk, counted as the interpreter's output
  is read: the first occurrence is taken out together with one optional CR and LF after
  it, and the count goes on in what remains.
\<close>

function sentinel_count :: "string \<Rightarrow> nat" where
  "sentinel_count buf =
     (case str_find buf INTERNAL_TIMEOUT_SENTINEL of
        None \<Rightarrow> 0
      | Some k \<Rightarrow>
          Suc (sentinel_count
                 (take k buf @ strip_crlf (drop (k + length INTERNAL_TIMEOUT_SENTINEL) buf))))"
  by pat_completeness auto
termination
proof (relation "measure length")
  show "wf (measure (length :: string \<Rightarrow> nat))" by simp
next
  fix buf :: string and k
  assume f: "str_find buf INTERNAL_TIMEOUT_SENTINEL = Some k"
  have bound: "\<And>h j. str_find h INTERNAL_TIMEOUT_SENTINEL = Some j \<Longrightarrow> j < length h"
  proof -
    fix h j show "str_find h INTERNAL_TIMEOUT_SENTINEL = Some j \<Longrightarrow> j < length h"
    proof (induction h arbitrary: j)
      case Nil
      then show ?case by (simp add: INTERNAL_TIMEOUT_SENTINEL_def)
    next
      case (Cons x xs)
      then show ?case by (auto split: if_splits)
    qed
  qed
  have short: "\<And>xs. length (strip_crlf xs) \<le> length xs"
    by (simp add: strip_crlf_def Let_def split: list.splits)
  have "k < length buf" using bound[OF f] .
  moreover have "length (strip_crlf (drop (k + length INTERNAL_TIMEOUT_SENTINEL) buf))
      \<le> length buf - (k + length INTERNAL_TIMEOUT_SENTINEL)"
    using short[of "drop (k + length INTERNAL_TIMEOUT_SENTINEL) buf"] by simp
  moreover have "length INTERNAL_TIMEOUT_SENTINEL = 23" by (simp add: INTERNAL_TIMEOUT_SENTINEL_def)
  ultimately have "length (take k buf @ strip_crlf (drop (k + length INTERNAL_TIMEOUT_SENTINEL) buf))
      < length buf"
    by simp
  then show "(take k buf @ strip_crlf (drop (k + length INTERNAL_TIMEOUT_SENTINEL) buf), buf)
      \<in> measure length"
    by simp
qed

declare sentinel_count.simps [simp del]

text \<open>
  The result of the specification's completion rule for a record at clock reading \<open>now\<close>:
  successful when not timed out and the end marker was seen, exit code \<open>0\<close> on success
  and \<open>-1\<close> otherwise, the collected out- and err-buffer, the time elapsed since the
  start timestamp.
\<close>

definition spec_completion :: "int \<Rightarrow> bool \<Rightarrow> CmdState \<Rightarrow> ExecutionResult" where
  "spec_completion now end_marker_seen S =
     \<lparr>out = outBuf S, err = errBuf S,
      exitCode = (if \<not> timedOut S \<and> end_marker_seen then 0 else - 1),
      success = (\<not> timedOut S \<and> end_marker_seen),
      executionTime = now - tStart S\<rparr>"
section \<open>Searching for markers\<close>

lemma occurs_at_Cons_Suc: "occurs_at (x # xs) m (Suc k) = occurs_at xs m k"
  by (simp add: occurs_at_def)

lemma occurs_at_0: "occurs_at buf m 0 = (take (length m) buf = m)"
  by (simp add: occurs_at_def)

lemma str_find_iff: "str_find buf m = Some k \<longleftrightarrow> first_occurrence buf m k"
proof (induction buf arbitrary: k)
  case Nil
  show ?case by (auto simp: first_occurrence_def occurs_at_def)
next
  case (Cons x xs)
  show ?case
  proof (cases "take (length m) (x # xs) = m")
    case True
    then have o: "occurs_at (x # xs) m 0" by (simp add: occurs_at_0)
    have "first_occurrence (x # xs) m k \<longleftrightarrow> k = 0"
    proof
      assume f: "first_occurrence (x # xs) m k"
      show "k = 0"
      proof (rule ccontr)
        assume "k \<noteq> 0"
        then have "0 < k" by simp
        with f o show False by (auto simp: first_occurrence_def)
      qed
    next
      assume "k = 0"
      with o show "first_occurrence (x # xs) m k" by (simp add: first_occurrence_def)
    qed
    with True show ?thesis by auto
  next
    case False
    then have no: "\<not> occurs_at (x # xs) m 0" by (simp add: occurs_at_0)
    have "first_occurrence (x # xs) m k \<longleftrightarrow> (\<exists>k'. k = Suc k' \<and> first_occurrence xs m k')"
    proof
      assume f: "first_occurrence (x # xs) m k"
      have "k \<noteq> 0"
      proof
        assume "k = 0"
        with f have "occurs_at (x # xs) m 0" by (simp add: first_occurrence_def)
        with no show False by simp
      qed
      then obtain k' where k: "k = Suc k'" by (cases k) auto
      have "occurs_at xs m k'" using f k by (simp add: first_occurrence_def occurs_at_Cons_Suc)
      moreover have "\<forall>j<k'. \<not> occurs_at xs m j"
      proof (intro allI impI)
        fix j assume "j < k'"
        then have "Suc j < k" using k by simp
        with f have "\<not> occurs_at (x # xs) m (Suc j)" by (simp add: first_occurrence_def)
        then show "\<not> occurs_at xs m j" by (simp add: occurs_at_Cons_Suc)
      qed
      ultimately show "\<exists>k'. k = Suc k' \<and> first_occurrence xs m k'"
        using k by (simp add: first_occurrence_def)
    next
      assume "\<exists>k'. k = Suc k' \<and> first_occurrence xs m k'"
      then obtain k' where k: "k = Suc k'" and f: "first_occurrence xs m k'" by blast
      have "occurs_at (x # xs) m k" using f k by (simp add: first_occurrence_def occurs_at_Cons_Suc)
      moreover have "\<forall>j<k. \<not> occurs_at (x # xs) m j"
      proof (intro allI impI)
        fix j assume j: "j < k"
        show "\<not> occurs_at (x # xs) m j"
        proof (cases j)
          case 0
          with no show ?thesis by simp
        next
          case (Suc j')
          with j k have "j' < k'" by simp
          with f have "\<not> occurs_at xs m j'" by (simp add: first_occurrence_def)
          with Suc show ?thesis by (simp add: occurs_at_Cons_Suc)
        qed
      qed
      ultimately show "first_occurrence (x # xs) m k" by (simp add: first_occurrence_def)
    qed
    with False Cons.IH show ?thesis by auto
  qed
qed

lemma first_occurrence_split:
  "first_occurrence buf m k \<Longrightarrow> buf = take k buf @ m @ drop (k + length m) buf"
proof -
  assume "first_occurrence buf m k"
  then have "take (length m) (drop k buf) = m" by (simp add: first_occurrence_def occurs_at_def)
  then have "drop k buf = m @ drop (length m) (drop k buf)"
    by (metis append_take_drop_id)
  then have "drop k buf = m @ drop (k + length m) buf" by (simp add: add.commute)
  then show ?thesis by (metis append_take_drop_id)
qed

lemma skip_crlf_drop:
  "p \<le> length buf \<Longrightarrow> drop (skip_crlf buf p) buf = strip_crlf (drop p buf)"
proof -
  assume p: "p \<le> length buf"
  show ?thesis
  proof (cases "p < length buf")
    case False
    with p have "p = length buf" by simp
    then show ?thesis by (simp add: skip_crlf_def strip_crlf_def)
  next
    case True
    then have d: "drop p buf = buf ! p # drop (Suc p) buf" by (simp add: Cons_nth_drop_Suc)
    show ?thesis
    proof (cases "buf ! p = CR")
      case cr: True
      show ?thesis
      proof (cases "Suc p < length buf")
        case False
        then have "drop (Suc p) buf = []" by simp
        with True cr d False show ?thesis by (simp add: skip_crlf_def strip_crlf_def Let_def)
      next
        case sp: True
        then have d2: "drop (Suc p) buf = buf ! Suc p # drop (Suc (Suc p)) buf"
          by (simp add: Cons_nth_drop_Suc)
        with True cr d sp show ?thesis
          by (simp add: skip_crlf_def strip_crlf_def Let_def)
      qed
    next
      case ncr: False
      with True d show ?thesis
        by (auto simp add: skip_crlf_def strip_crlf_def Let_def CR_def NL_def)
    qed
  qed
qed

lemma first_occurrence_le: "first_occurrence buf m k \<Longrightarrow> k + length m \<le> length buf"
proof -
  assume "first_occurrence buf m k"
  then have a: "k \<le> length buf" and b: "take (length m) (drop k buf) = m"
    by (simp_all add: first_occurrence_def occurs_at_def)
  from b have "length (take (length m) (drop k buf)) = length m" by simp
  then have "length m \<le> length (drop k buf)" by simp
  with a show ?thesis by simp
qed

lemma str_find_None_iff: "str_find buf m = None \<longleftrightarrow> no_occurrence buf m"
proof
  assume n: "str_find buf m = None"
  show "no_occurrence buf m"
    unfolding no_occurrence_def
  proof (intro allI impI notI)
    fix k assume "k \<le> length buf" and o: "occurs_at buf m k"
    define j where "j = (LEAST j. occurs_at buf m j)"
    have oj: "occurs_at buf m j" unfolding j_def using o by (rule LeastI)
    have "\<forall>l<j. \<not> occurs_at buf m l" unfolding j_def using not_less_Least by blast
    with oj have "first_occurrence buf m j" by (simp add: first_occurrence_def)
    then have "str_find buf m = Some j" by (simp add: str_find_iff)
    with n show False by simp
  qed
next
  assume a: "no_occurrence buf m"
  show "str_find buf m = None"
  proof (rule ccontr)
    assume "str_find buf m \<noteq> None"
    then obtain k where "str_find buf m = Some k" by auto
    then have "first_occurrence buf m k" by (simp add: str_find_iff)
    then have "occurs_at buf m k" "k \<le> length buf"
      by (simp_all add: first_occurrence_def occurs_at_def)
    with a show False by (simp add: no_occurrence_def)
  qed
qed

lemma str_find_le: "str_find buf m = Some k \<Longrightarrow> k + length m \<le> length buf"
  by (simp add: str_find_iff first_occurrence_le)

lemma str_find_prefix: "m \<noteq> [] \<Longrightarrow> str_find (m @ ys) m = Some 0"
  by (cases m) simp_all


section \<open>Packets and markers\<close>

lemma digit_char_not_SQ: "d < 10 \<Longrightarrow> digit_char d \<noteq> SQ"
proof -
  assume "d < 10"
  then have "d \<in> {0,1,2,3,4,5,6,7,8,9}" by auto
  then show ?thesis by (auto simp: digit_char_def SQ_def)
qed

lemma SQ_notin_to_string: "SQ \<notin> set (to_string n)"
proof (induction n rule: to_string.induct)
  case (1 n)
  show ?case
  proof (cases "n < 10")
    case True
    then show ?thesis using digit_char_not_SQ[of n] by (subst to_string.simps) auto
  next
    case False
    have "n mod 10 < 10" by simp
    then have "digit_char (n mod 10) \<noteq> SQ" by (rule digit_char_not_SQ)
    with False 1 show ?thesis by (subst to_string.simps) auto
  qed
qed

lemma ps_quote_body_id: "SQ \<notin> set s \<Longrightarrow> ps_quote_body s = s"
  by (induction s) auto

lemma SQ_notin_beginMarker: "SQ \<notin> set (beginMarker_of i)"
  using SQ_notin_to_string by (auto simp: beginMarker_of_def SQ_def)

lemma SQ_notin_endMarker: "SQ \<notin> set (endMarker_of i)"
  using SQ_notin_to_string by (auto simp: endMarker_of_def SQ_def)

lemma build_pwsh_packet_format:
  "build_pwsh_packet i cmd =
     print_line (beginMarker_of i) @ cmd @ (if cmd \<noteq> [] \<and> last cmd \<noteq> NL then [NL] else [])
     @ print_line (endMarker_of i)"
proof -
  have b: "ps_quote_single (beginMarker_of i) = [SQ] @ beginMarker_of i @ [SQ]"
    by (simp add: ps_quote_single_def ps_quote_body_id SQ_notin_beginMarker)
  have e: "ps_quote_single (endMarker_of i) = [SQ] @ endMarker_of i @ [SQ]"
    by (simp add: ps_quote_single_def ps_quote_body_id SQ_notin_endMarker)
  show ?thesis
    unfolding build_pwsh_packet_def Let_def print_line_def
    unfolding beginMarker_of_def[symmetric] endMarker_of_def[symmetric] b e
    by (cases "cmd = []") (simp_all)
qed

lemma submit_accepted:
  assumes "\<not> lifecycleGate s \<or> bypass" and "isRunning s"
  shows "submit now cmd t c bypass s =
           (Pending (seq s + 1),
            submit_enqueue (seq s + 1) cmd
              (submit_count
                (submit_register (seq s + 1)
                   (new_CmdState now (seq s + 1) t c (config_timeoutSeconds s))
                   (s\<lparr>seq := seq s + 1\<rparr>))))"
  using assms by (auto simp: submit_def Let_def)

lemma inflight_submit_count [simp]: "inflight (submit_count s) = inflight s"
  and inflightOrder_submit_count [simp]: "inflightOrder (submit_count s) = inflightOrder s"
  and writeQueue_submit_count [simp]: "writeQueue (submit_count s) = writeQueue s"
  and trace_submit_count [simp]: "trace (submit_count s) = trace s"
  and seq_submit_count [simp]: "seq (submit_count s) = seq s"
  and isRunning_submit_count [simp]: "isRunning (submit_count s) = isRunning s"
  and gate_submit_count [simp]: "lifecycleGate (submit_count s) = lifecycleGate s"
  by (simp_all add: submit_count_def Let_def)

text \<open>
  C4 (amended). The packet for identifier \<open>i\<close> and body \<open>cmd\<close> is the line printing the
  literal marker \<open><<<SS_BEG_i>>>\<close> (\<open>i\<close> in decimal), then the body, followed by a newline
  if and only if the body is not empty and does not already end in one, then the line
  printing \<open><<<SS_END_i>>>\<close>; for a non-empty body this is the packet the specification
  describes. An accepted \<open>submit\<close> enqueues this packet for the identifier it allocates,
  and the record it registers holds the same two marker strings.
\<close>

theorem packet_and_markers:
  "build_pwsh_packet i cmd =
     print_line (beginMarker_of i) @ cmd @ (if cmd \<noteq> [] \<and> last cmd \<noteq> NL then [NL] else [])
     @ print_line (endMarker_of i)
   \<and> (cmd \<noteq> [] \<longrightarrow> build_pwsh_packet i cmd = spec_packet i cmd)
   \<and> ((\<not> lifecycleGate s \<or> bypass) \<and> isRunning s \<and> inflight s (seq s + 1) = None \<longrightarrow>
        fst (submit now cmd t c bypass s) = Pending (seq s + 1)
        \<and> writeQueue (snd (submit now cmd t c bypass s))
            = writeQueue s @ [build_pwsh_packet (seq s + 1) cmd]
        \<and> (\<exists>S. inflight (snd (submit now cmd t c bypass s)) (seq s + 1) = Some S
                \<and> beginMarker S = beginMarker_of (seq s + 1)
                \<and> endMarker S = endMarker_of (seq s + 1)))"
proof -
  have A: "cmd \<noteq> [] \<Longrightarrow> build_pwsh_packet i cmd = spec_packet i cmd"
    by (simp add: build_pwsh_packet_format spec_packet_def ends_in_newline_def)
  have B: "fst (submit now cmd t c bypass s) = Pending (seq s + 1)
        \<and> writeQueue (snd (submit now cmd t c bypass s))
            = writeQueue s @ [build_pwsh_packet (seq s + 1) cmd]
        \<and> (\<exists>S. inflight (snd (submit now cmd t c bypass s)) (seq s + 1) = Some S
                \<and> beginMarker S = beginMarker_of (seq s + 1)
                \<and> endMarker S = endMarker_of (seq s + 1))"
    if h: "(\<not> lifecycleGate s \<or> bypass) \<and> isRunning s \<and> inflight s (seq s + 1) = None"
  proof -
    from h have e: "submit now cmd t c bypass s =
           (Pending (seq s + 1),
            submit_enqueue (seq s + 1) cmd
              (submit_count
                (submit_register (seq s + 1)
                   (new_CmdState now (seq s + 1) t c (config_timeoutSeconds s))
                   (s\<lparr>seq := seq s + 1\<rparr>))))"
      using submit_accepted[of s bypass now cmd t c] by blast
    show ?thesis unfolding e using h
      by (simp add: submit_enqueue_def submit_register_def Let_def new_CmdState_def
          beginMarker_of_def endMarker_of_def)
  qed
  from build_pwsh_packet_format[of i cmd] A B show ?thesis by blast
qed

theorem packet_and_markers_witness:
  "build_pwsh_packet 12 ''ls'' =
     print_line ''<<<SS_BEG_12>>>'' @ ''ls'' @ [NL] @ print_line ''<<<SS_END_12>>>''
   \<and> build_pwsh_packet 12 ''ls'' = spec_packet 12 ''ls''
   \<and> fst (submit 0 ''ls'' 0 None False shell0) = Pending 1
   \<and> writeQueue (snd (submit 0 ''ls'' 0 None False shell0)) = [build_pwsh_packet 1 ''ls'']
   \<and> (\<exists>S. inflight (snd (submit 0 ''ls'' 0 None False shell0)) 1 = Some S
           \<and> beginMarker S = ''<<<SS_BEG_1>>>'' \<and> endMarker S = ''<<<SS_END_1>>>'')"
proof -
  have m: "beginMarker_of 12 = ''<<<SS_BEG_12>>>''" "endMarker_of 12 = ''<<<SS_END_12>>>''"
    "beginMarker_of 1 = ''<<<SS_BEG_1>>>''" "endMarker_of 1 = ''<<<SS_END_1>>>''"
    by (simp_all add: beginMarker_of_def endMarker_of_def to_string.simps digit_char_def)
  have h: "(\<not> lifecycleGate shell0 \<or> False) \<and> isRunning shell0
           \<and> inflight shell0 (seq shell0 + 1) = None" "seq shell0 + 1 = 1" "writeQueue shell0 = []"
    by (simp_all add: shell0_def)
  have n: "''ls'' \<noteq> []" "last ''ls'' \<noteq> NL" by (simp_all add: NL_def)
  note t = packet_and_markers
      [where i = 12 and cmd = "''ls''" and s = shell0 and bypass = False and now = 0
         and t = 0 and c = None]
  from t [THEN conjunct1] n
  have c1: "build_pwsh_packet 12 ''ls'' =
     print_line ''<<<SS_BEG_12>>>'' @ ''ls'' @ [NL] @ print_line ''<<<SS_END_12>>>''"
    by (simp add: m)
  from t [THEN conjunct2, THEN conjunct1] n
  have c2: "build_pwsh_packet 12 ''ls'' = spec_packet 12 ''ls''" by simp
  from t [THEN conjunct2, THEN conjunct2] h
  have c3: "fst (submit 0 ''ls'' 0 None False shell0) = Pending 1
   \<and> writeQueue (snd (submit 0 ''ls'' 0 None False shell0)) = [build_pwsh_packet 1 ''ls'']
   \<and> (\<exists>S. inflight (snd (submit 0 ''ls'' 0 None False shell0)) 1 = Some S
           \<and> beginMarker S = ''<<<SS_BEG_1>>>'' \<and> endMarker S = ''<<<SS_END_1>>>'')"
    by (simp add: m)
  from c1 c2 c3 show ?thesis by blast
qed

theorem packet_empty_body_counterexample:
  "build_pwsh_packet 1 [] = print_line ''<<<SS_BEG_1>>>'' @ print_line ''<<<SS_END_1>>>''
   \<and> spec_packet 1 [] = print_line ''<<<SS_BEG_1>>>'' @ [NL] @ print_line ''<<<SS_END_1>>>''
   \<and> build_pwsh_packet 1 [] \<noteq> spec_packet 1 []"
  by (simp add: build_pwsh_packet_def ps_quote_single_def to_string.simps digit_char_def
      spec_packet_def ends_in_newline_def print_line_def beginMarker_of_def endMarker_of_def
      SQ_def NL_def)


section \<open>Deadlines\<close>

text \<open>
  Seconds to ticks, and the records \<open>submit\<close> builds: with the default timeout of the
  configuration, with a timeout of half a second, and with no timeout at all.
\<close>

lemma to_ticks_examples:
  "to_ticks 30 = 30000000000" "to_ticks (1 / 2) = 500000000" "to_ticks (1 / 3) = 333333333"
  by (simp_all add: to_ticks_def ticks_per_second_def floor_eq_iff)

lemma new_CmdState_examples:
  "new_CmdState 0 1 0 None 30 = rec1"
  "new_CmdState 1 2 0 (Some (Callback True)) 30 = rec2"
  "tDeadline (new_CmdState 7 1 (1 / 2) None 30) = Some 500000007"
  "tDeadline (new_CmdState 7 1 0 None 0) = None"
  by (simp_all add: new_CmdState_def Let_def rec1_def rec2_def to_ticks_examples
        to_string.simps digit_char_def)


section \<open>Completion\<close>

lemma resolve_and_notify_fresh:
  "prom S = None \<Longrightarrow>
     resolve_and_notify r S =
       (S\<lparr>prom := Some r\<rparr>,
        PromiseSet (cmd_id S) r # (case cb S of None \<Rightarrow> [] | Some c \<Rightarrow> [CallbackCalled (cmd_id S) r]))"
  by (auto simp: resolve_and_notify_def set_value_def invoke_cb_def Let_def split: option.splits)

section \<open>Errors delivered by submit\<close>

lemma fulfillTimeout_trace:
  "prom S = None \<Longrightarrow>
     trace (fulfillTimeout (Some S) e s) =
       trace s @ PromiseSet (cmd_id S) (timeout_result S)
                 # (case cb S of None \<Rightarrow> []
                    | Some c \<Rightarrow> [CallbackCalled (cmd_id S) (timeout_result S)])"
  by (cases "cb S")
     (simp_all add: fulfillTimeout_def Let_def resolve_and_notify_fresh requestRestartAsync_def)

text \<open>
  C9. \<open>submit\<close> always returns a future. With the lifecycle gate closed and no bypass it
  is a ready future holding the restarting result (exit code \<open>-2\<close>, not successful) and
  the shell is unchanged; otherwise, with the process not running, it is a ready future
  holding the not-running result (exit code \<open>-3\<close>, not successful); otherwise it is the
  pending future of the new command. The two results differ from each other and from
  the result the timeout path delivers (exit code \<open>-1\<close>).
\<close>

theorem submit_rejections:
  "(lifecycleGate s \<and> \<not> bypass \<longrightarrow>
      submit now cmd t c bypass s = (Ready restarting_result, s))
   \<and> (\<not> (lifecycleGate s \<and> \<not> bypass) \<and> \<not> isRunning s \<longrightarrow>
        submit now cmd t c bypass s = (Ready not_running_result, s))
   \<and> (\<not> (lifecycleGate s \<and> \<not> bypass) \<and> isRunning s \<longrightarrow>
        fst (submit now cmd t c bypass s) = Pending (seq s + 1))
   \<and> \<not> success restarting_result \<and> \<not> success not_running_result
   \<and> exitCode restarting_result = - 2 \<and> exitCode not_running_result = - 3
   \<and> exitCode (timeout_result S) = - 1 \<and> \<not> success (timeout_result S)
   \<and> restarting_result \<noteq> not_running_result
   \<and> restarting_result \<noteq> timeout_result S
   \<and> not_running_result \<noteq> timeout_result S
   \<and> (prom S = None \<longrightarrow>
        PromiseSet (cmd_id S) (timeout_result S) \<in> set (trace (fulfillTimeout (Some S) e s)))"
proof -
  have d: "restarting_result \<noteq> timeout_result S" "not_running_result \<noteq> timeout_result S"
    "restarting_result \<noteq> not_running_result"
    by (auto simp: restarting_result_def not_running_result_def timeout_result_def)
  show ?thesis using d
    by (auto simp: submit_def Let_def fulfillTimeout_trace)
       (simp_all add: restarting_result_def not_running_result_def timeout_result_def)
qed

theorem submit_rejections_witness:
  "submit 0 ''ls'' 0 None False (shell0\<lparr>lifecycleGate := True\<rparr>)
     = (Ready restarting_result, shell0\<lparr>lifecycleGate := True\<rparr>)
   \<and> submit 0 ''ls'' 0 None False (shell0\<lparr>isRunning := False\<rparr>)
     = (Ready not_running_result, shell0\<lparr>isRunning := False\<rparr>)
   \<and> fst (submit 0 ''ls'' 0 None False shell0) = Pending 1
   \<and> PromiseSet 1 (timeout_result cmd1) \<in> set (trace (fulfillTimeout (Some cmd1) True shell0))
   \<and> exitCode (timeout_result cmd1) = - 1"
proof -
  note t1 = submit_rejections [where s = "shell0\<lparr>lifecycleGate := True\<rparr>" and bypass = False
      and now = 0 and cmd = "''ls''" and t = 0 and c = None and S = cmd1 and e = True]
  note t2 = submit_rejections [where s = "shell0\<lparr>isRunning := False\<rparr>" and bypass = False
      and now = 0 and cmd = "''ls''" and t = 0 and c = None and S = cmd1 and e = True]
  note t3 = submit_rejections [where s = shell0 and bypass = False
      and now = 0 and cmd = "''ls''" and t = 0 and c = None and S = cmd1 and e = True]
  have h: "lifecycleGate (shell0\<lparr>lifecycleGate := True\<rparr>)"
    "\<not> lifecycleGate (shell0\<lparr>isRunning := False\<rparr>)" "\<not> isRunning (shell0\<lparr>isRunning := False\<rparr>)"
    "\<not> lifecycleGate shell0" "isRunning shell0" "seq shell0 + 1 = 1"
    "prom cmd1 = None" "cmd_id cmd1 = 1"
    by (simp_all add: shell0_def cmd1_def)
  from t1 h have c1: "submit 0 ''ls'' 0 None False (shell0\<lparr>lifecycleGate := True\<rparr>)
     = (Ready restarting_result, shell0\<lparr>lifecycleGate := True\<rparr>)" by simp
  from t2 h have c2: "submit 0 ''ls'' 0 None False (shell0\<lparr>isRunning := False\<rparr>)
     = (Ready not_running_result, shell0\<lparr>isRunning := False\<rparr>)" by simp
  from t3 h have c3: "fst (submit 0 ''ls'' 0 None False shell0) = Pending 1
   \<and> PromiseSet 1 (timeout_result cmd1) \<in> set (trace (fulfillTimeout (Some cmd1) True shell0))
   \<and> exitCode (timeout_result cmd1) = - 1" by simp
  from c1 c2 c3 show ?thesis by blast
qed

section \<open>Stderr with nothing in flight\<close>

lemma word_pred_less: "(p::u32) > 0 \<Longrightarrow> p - 1 < p"
proof -
  assume "p > 0"
  then have "p \<noteq> 0" by auto
  then have "unat (p - 1) = unat p - 1" by (rule unat_minus_one)
  moreover have "unat p > 0" using \<open>p \<noteq> 0\<close> by (simp add: unat_gt_0)
  ultimately show ?thesis by (simp add: word_less_nat_alt)
qed

lemma word_pred_le: "(p::u32) > 0 \<Longrightarrow> p - 1 \<le> p"
  using word_pred_less[of p] by simp

lemma strip_sentinels_le: "fst (snd (strip_sentinels chunk p)) \<le> p"
proof (induction chunk p rule: strip_sentinels.induct)
  case (1 chunk pending)
  show ?case
  proof (cases "chunk = []")
    case True
    then show ?thesis by (simp add: strip_sentinels.simps)
  next
    case ne: False
    show ?thesis
    proof (cases "str_find chunk INTERNAL_TIMEOUT_SENTINEL")
      case None
      with ne show ?thesis by (simp add: strip_sentinels.simps)
    next
      case (Some pos)
      show ?thesis
      proof (cases "pending > 0")
        case False
        with ne Some show ?thesis by (simp add: strip_sentinels.simps[of chunk] Let_def)
      next
        case True
        let ?c = "take pos chunk @ drop (skip_crlf chunk (pos + length INTERNAL_TIMEOUT_SENTINEL)) chunk"
        have ih: "fst (snd (strip_sentinels ?c (pending - 1))) \<le> pending - 1"
          using "1.IH"[OF ne Some refl refl True] .
        have "pending - 1 \<le> pending" using True by (rule word_pred_le)
        with ih True ne Some show ?thesis
          by (simp add: strip_sentinels.simps[of chunk] Let_def)
      qed
    qed
  qed
qed

lemma strip_sentinels_none:
  "str_find chunk INTERNAL_TIMEOUT_SENTINEL = None \<Longrightarrow> strip_sentinels chunk p = (chunk, p, False)"
  by (simp add: strip_sentinels.simps)

lemma strip_sentinels_found:
  assumes "str_find chunk INTERNAL_TIMEOUT_SENTINEL = Some pos" and "p > 0"
  shows "fst (snd (strip_sentinels chunk p)) < p"
proof -
  have ne: "chunk \<noteq> []" using assms(1) by (auto simp: INTERNAL_TIMEOUT_SENTINEL_def)
  let ?c = "take pos chunk @ drop (skip_crlf chunk (pos + length INTERNAL_TIMEOUT_SENTINEL)) chunk"
  have e: "strip_sentinels chunk p = strip_sentinels ?c (p - 1)"
    using assms ne by (simp add: strip_sentinels.simps[of chunk] Let_def)
  have "fst (snd (strip_sentinels ?c (p - 1))) \<le> p - 1" by (rule strip_sentinels_le)
  moreover have "p - 1 < p" using assms(2) by (rule word_pred_less)
  ultimately show ?thesis unfolding e by simp
qed

lemma strip_sentinels_count:
  "fst (snd (strip_sentinels chunk p)) = word_of_nat (unat p - sentinel_count chunk)"
proof (induction chunk p rule: strip_sentinels.induct)
  case (1 chunk pending)
  show ?case
  proof (cases "str_find chunk INTERNAL_TIMEOUT_SENTINEL")
    case None
    then show ?thesis by (simp add: strip_sentinels.simps sentinel_count.simps[of chunk])
  next
    case (Some pos)
    then have ne: "chunk \<noteq> []" by (auto simp: INTERNAL_TIMEOUT_SENTINEL_def)
    have le: "pos + length INTERNAL_TIMEOUT_SENTINEL \<le> length chunk"
      using Some by (rule str_find_le)
    let ?c = "take pos chunk @ drop (skip_crlf chunk (pos + length INTERNAL_TIMEOUT_SENTINEL)) chunk"
    have c: "?c = take pos chunk @ strip_crlf (drop (pos + length INTERNAL_TIMEOUT_SENTINEL) chunk)"
      by (simp add: skip_crlf_drop[OF le])
    have n: "sentinel_count chunk = Suc (sentinel_count ?c)"
      unfolding c by (subst sentinel_count.simps) (simp add: Some)
    show ?thesis
    proof (cases "pending > 0")
      case False
      then have "pending = 0" by (simp add: word_greater_zero_iff)
      with ne Some show ?thesis by (simp add: strip_sentinels.simps[of chunk] Let_def)
    next
      case True
      have ih: "fst (snd (strip_sentinels ?c (pending - 1)))
                  = word_of_nat (unat (pending - 1) - sentinel_count ?c)"
        using "1.IH"[OF ne Some refl refl True] .
      have "pending \<noteq> 0" using True by auto
      then have u: "unat (pending - 1) = unat pending - 1" by (rule unat_minus_one)
      have e: "strip_sentinels chunk pending = strip_sentinels ?c (pending - 1)"
        using True ne Some by (simp add: strip_sentinels.simps[of chunk] Let_def)
      show ?thesis unfolding e ih n u by simp
    qed
  qed
qed

lemma sentinel_count_lines:
  "no_occurrence rest INTERNAL_TIMEOUT_SENTINEL \<Longrightarrow>
     sentinel_count (concat (replicate k (INTERNAL_TIMEOUT_SENTINEL @ [CR, NL])) @ rest) = k"
proof (induction k)
  case 0
  then have "str_find rest INTERNAL_TIMEOUT_SENTINEL = None" by (simp add: str_find_None_iff)
  then show ?case by (simp add: sentinel_count.simps[of rest])
next
  case (Suc k)
  let ?X = "concat (replicate k (INTERNAL_TIMEOUT_SENTINEL @ [CR, NL])) @ rest"
  let ?buf = "INTERNAL_TIMEOUT_SENTINEL @ ([CR, NL] @ ?X)"
  have ne: "INTERNAL_TIMEOUT_SENTINEL \<noteq> []" by (simp add: INTERNAL_TIMEOUT_SENTINEL_def)
  have f: "str_find ?buf INTERNAL_TIMEOUT_SENTINEL = Some 0" using ne by (rule str_find_prefix)
  have "sentinel_count ?buf
      = Suc (sentinel_count
               (take 0 ?buf @ strip_crlf (drop (0 + length INTERNAL_TIMEOUT_SENTINEL) ?buf)))"
    by (subst sentinel_count.simps) (simp only: f option.simps)
  moreover have "take 0 ?buf @ strip_crlf (drop (0 + length INTERNAL_TIMEOUT_SENTINEL) ?buf) = ?X"
    by (simp add: strip_crlf_def CR_def NL_def)
  ultimately show ?case using Suc by simp
qed

text \<open>
  C10. A stderr chunk that arrives while the in-flight FIFO is empty is dropped: the
  map, the FIFO and the trace are as before, so no buffer changed and nothing was
  delivered. Only the tally of expected sentinels may change: it never grows, stays as
  it is when the chunk holds no sentinel, and goes down when the chunk holds a sentinel
  and the tally is positive. Every sentinel in the chunk is matched against the tally:
  the tally goes down by the number of sentinels in the chunk, and stops at zero; so a
  chunk of \<open>k\<close> sentinel lines followed by text without a sentinel takes \<open>k\<close> off it.
\<close>

theorem stderr_chunk_without_head:
  assumes "inflightOrder s = []"
  shows "onChunk now True sv s
           = s\<lparr>pendingTimeoutSentinels := fst (snd (strip_sentinels sv (pendingTimeoutSentinels s)))\<rparr>
       \<and> inflight (onChunk now True sv s) = inflight s
       \<and> inflightOrder (onChunk now True sv s) = []
       \<and> trace (onChunk now True sv s) = trace s
       \<and> pendingTimeoutSentinels (onChunk now True sv s) \<le> pendingTimeoutSentinels s
       \<and> (str_find sv INTERNAL_TIMEOUT_SENTINEL = None \<longrightarrow>
            pendingTimeoutSentinels (onChunk now True sv s) = pendingTimeoutSentinels s)
       \<and> (str_find sv INTERNAL_TIMEOUT_SENTINEL \<noteq> None \<and> pendingTimeoutSentinels s > 0 \<longrightarrow>
            pendingTimeoutSentinels (onChunk now True sv s) < pendingTimeoutSentinels s)
       \<and> onChunk now True sv s
           = s\<lparr>pendingTimeoutSentinels :=
                 word_of_nat (unat (pendingTimeoutSentinels s) - sentinel_count sv)\<rparr>
       \<and> (no_occurrence rest INTERNAL_TIMEOUT_SENTINEL \<longrightarrow>
            onChunk now True (concat (replicate k (INTERNAL_TIMEOUT_SENTINEL @ [CR, NL])) @ rest) s
              = s\<lparr>pendingTimeoutSentinels := word_of_nat (unat (pendingTimeoutSentinels s) - k)\<rparr>)"
proof -
  have e: "onChunk now True c s
           = s\<lparr>pendingTimeoutSentinels := fst (snd (strip_sentinels c (pendingTimeoutSentinels s)))\<rparr>"
    for c
  proof (cases "c = []")
    case True
    then show ?thesis by (simp add: onChunk_def strip_sentinels.simps)
  next
    case False
    then show ?thesis using assms
      by (simp add: onChunk_def onChunk_stderr_def Let_def split: prod.splits)
  qed
  have old: "onChunk now True sv s
           = s\<lparr>pendingTimeoutSentinels := fst (snd (strip_sentinels sv (pendingTimeoutSentinels s)))\<rparr>
       \<and> inflight (onChunk now True sv s) = inflight s
       \<and> inflightOrder (onChunk now True sv s) = []
       \<and> trace (onChunk now True sv s) = trace s
       \<and> pendingTimeoutSentinels (onChunk now True sv s) \<le> pendingTimeoutSentinels s
       \<and> (str_find sv INTERNAL_TIMEOUT_SENTINEL = None \<longrightarrow>
            pendingTimeoutSentinels (onChunk now True sv s) = pendingTimeoutSentinels s)
       \<and> (str_find sv INTERNAL_TIMEOUT_SENTINEL \<noteq> None \<and> pendingTimeoutSentinels s > 0 \<longrightarrow>
            pendingTimeoutSentinels (onChunk now True sv s) < pendingTimeoutSentinels s)"
    unfolding e using assms strip_sentinels_le[of sv "pendingTimeoutSentinels s"]
      strip_sentinels_none[of sv "pendingTimeoutSentinels s"]
      strip_sentinels_found[of sv _ "pendingTimeoutSentinels s"]
    by auto
  have cnt: "onChunk now True sv s
           = s\<lparr>pendingTimeoutSentinels :=
                 word_of_nat (unat (pendingTimeoutSentinels s) - sentinel_count sv)\<rparr>"
    unfolding e strip_sentinels_count ..
  have lines: "onChunk now True (concat (replicate k (INTERNAL_TIMEOUT_SENTINEL @ [CR, NL])) @ rest) s
              = s\<lparr>pendingTimeoutSentinels := word_of_nat (unat (pendingTimeoutSentinels s) - k)\<rparr>"
    if "no_occurrence rest INTERNAL_TIMEOUT_SENTINEL"
    unfolding e strip_sentinels_count sentinel_count_lines[OF that] ..
  from old cnt lines show ?thesis by blast
qed

theorem stderr_chunk_without_head_witness:
  "onChunk 0 True (''err__VS_INTERNAL_TIMEOUT__'' @ [CR, NL] @ ''more'')
       (shell0\<lparr>pendingTimeoutSentinels := 1\<rparr>) = shell0\<lparr>pendingTimeoutSentinels := 0\<rparr>
   \<and> onChunk 0 True ''plain'' (shell0\<lparr>pendingTimeoutSentinels := 1\<rparr>)
       = shell0\<lparr>pendingTimeoutSentinels := 1\<rparr>
   \<and> onChunk 0 True (''__VS_INTERNAL_TIMEOUT__'' @ [CR, NL] @ ''__VS_INTERNAL_TIMEOUT__'' @ [CR, NL] @ ''more'')
       (shell0\<lparr>pendingTimeoutSentinels := 2\<rparr>) = shell0\<lparr>pendingTimeoutSentinels := 0\<rparr>
   \<and> onChunk 0 True (''__VS_INTERNAL_TIMEOUT__'' @ [CR, NL] @ ''__VS_INTERNAL_TIMEOUT__'' @ [CR, NL] @ ''more'')
       (shell0\<lparr>pendingTimeoutSentinels := 3\<rparr>) = shell0\<lparr>pendingTimeoutSentinels := 1\<rparr>
   \<and> onChunk 0 True (''__VS_INTERNAL_TIMEOUT__'' @ [CR, NL] @ ''__VS_INTERNAL_TIMEOUT__'' @ [CR, NL] @ ''more'')
       (shell0\<lparr>pendingTimeoutSentinels := 1\<rparr>) = shell0\<lparr>pendingTimeoutSentinels := 0\<rparr>
   \<and> onChunk 0 True (''a__VS_INTERNAL_TIMEOUT__b__VS_INTERNAL_TIMEOUT__'')
       (shell0\<lparr>pendingTimeoutSentinels := 5\<rparr>) = shell0\<lparr>pendingTimeoutSentinels := 3\<rparr>"
proof -
  let ?s = "shell0\<lparr>pendingTimeoutSentinels := 1\<rparr>"
  let ?sv = "''err__VS_INTERNAL_TIMEOUT__'' @ [CR, NL] @ ''more''"
  let ?two = "''__VS_INTERNAL_TIMEOUT__'' @ [CR, NL] @ ''__VS_INTERNAL_TIMEOUT__'' @ [CR, NL] @ ''more''"
  let ?ab = "''a__VS_INTERNAL_TIMEOUT__b__VS_INTERNAL_TIMEOUT__''"
  have h: "inflightOrder (shell0\<lparr>pendingTimeoutSentinels := p\<rparr>) = []" for p
    by (simp add: shell0_def)
  have f1: "str_find ?sv INTERNAL_TIMEOUT_SENTINEL = Some 3"
    by (simp add: INTERNAL_TIMEOUT_SENTINEL_def CR_def NL_def)
  have k: "skip_crlf ?sv (3 + length INTERNAL_TIMEOUT_SENTINEL) = 28"
    by (simp add: skip_crlf_def INTERNAL_TIMEOUT_SENTINEL_def CR_def NL_def Let_def)
  have f2: "str_find ''errmore'' INTERNAL_TIMEOUT_SENTINEL = None"
    by (simp add: INTERNAL_TIMEOUT_SENTINEL_def)
  have f3: "str_find ''plain'' INTERNAL_TIMEOUT_SENTINEL = None"
    by (simp add: INTERNAL_TIMEOUT_SENTINEL_def)
  have s2: "strip_sentinels ''errmore'' 0 = (''errmore'', 0, False)"
    using f2 by (simp add: strip_sentinels.simps)
  have s1: "strip_sentinels ?sv 1 = (''errmore'', 0, False)"
    by (subst strip_sentinels.simps) (simp add: f1 k Let_def s2 del: append.simps, simp add: s2)
  have s3: "strip_sentinels ''plain'' 1 = (''plain'', 1, False)"
    using f3 by (simp add: strip_sentinels.simps)
  have p: "pendingTimeoutSentinels (shell0\<lparr>pendingTimeoutSentinels := q\<rparr>) = q" for q by simp
  have u: "shell0\<lparr>pendingTimeoutSentinels := q, pendingTimeoutSentinels := r\<rparr>
             = shell0\<lparr>pendingTimeoutSentinels := r\<rparr>" for q r by simp
  from stderr_chunk_without_head [OF h, where p1 = 1 and now = 0 and sv = ?sv, THEN conjunct1]
  have c1: "onChunk 0 True ?sv ?s = shell0\<lparr>pendingTimeoutSentinels := 0\<rparr>"
    by (simp only: p s1 fst_conv snd_conv u)
  from stderr_chunk_without_head [OF h, where p1 = 1 and now = 0 and sv = "''plain''", THEN conjunct1]
  have c2: "onChunk 0 True ''plain'' ?s = ?s"
    by (simp only: p s3 fst_conv snd_conv u)
  have nm: "no_occurrence ''more'' INTERNAL_TIMEOUT_SENTINEL"
    unfolding str_find_None_iff[symmetric] by (simp add: INTERNAL_TIMEOUT_SENTINEL_def)
  have tw: "concat (replicate 2 (INTERNAL_TIMEOUT_SENTINEL @ [CR, NL])) @ ''more'' = ?two"
    by (simp add: INTERNAL_TIMEOUT_SENTINEL_def numeral_2_eq_2)
  have ln: "onChunk 0 True ?two (shell0\<lparr>pendingTimeoutSentinels := q\<rparr>)
       = shell0\<lparr>pendingTimeoutSentinels := word_of_nat (unat q - 2)\<rparr>" for q
    using stderr_chunk_without_head [OF h, where p1 = q and now = 0 and rest = "''more''" and k = 2,
      THEN conjunct2, THEN conjunct2, THEN conjunct2, THEN conjunct2, THEN conjunct2,
      THEN conjunct2, THEN conjunct2, THEN conjunct2, rule_format, OF nm]
    unfolding tw by (simp only: p u)
  from ln[of 2] have c3: "onChunk 0 True ?two (shell0\<lparr>pendingTimeoutSentinels := 2\<rparr>)
       = shell0\<lparr>pendingTimeoutSentinels := 0\<rparr>" by simp
  from ln[of 3] have c4: "onChunk 0 True ?two (shell0\<lparr>pendingTimeoutSentinels := 3\<rparr>)
       = shell0\<lparr>pendingTimeoutSentinels := 1\<rparr>" by simp
  from ln[of 1] have c5: "onChunk 0 True ?two (shell0\<lparr>pendingTimeoutSentinels := 1\<rparr>)
       = shell0\<lparr>pendingTimeoutSentinels := 0\<rparr>" by simp
  have g1: "str_find ?ab INTERNAL_TIMEOUT_SENTINEL = Some 1"
    by (simp add: INTERNAL_TIMEOUT_SENTINEL_def)
  have g2: "str_find ''ab__VS_INTERNAL_TIMEOUT__'' INTERNAL_TIMEOUT_SENTINEL = Some 2"
    by (simp add: INTERNAL_TIMEOUT_SENTINEL_def)
  have g3: "str_find ''ab'' INTERNAL_TIMEOUT_SENTINEL = None"
    by (simp add: INTERNAL_TIMEOUT_SENTINEL_def)
  have n3: "sentinel_count ''ab'' = 0"
    by (subst sentinel_count.simps) (simp only: g3 option.simps)
  have a2: "take 2 ''ab__VS_INTERNAL_TIMEOUT__''
              @ strip_crlf (drop (2 + length INTERNAL_TIMEOUT_SENTINEL) ''ab__VS_INTERNAL_TIMEOUT__'')
            = ''ab''"
    by (simp add: strip_crlf_def INTERNAL_TIMEOUT_SENTINEL_def)
  have n2: "sentinel_count ''ab__VS_INTERNAL_TIMEOUT__'' = 1"
  proof -
    have "sentinel_count ''ab__VS_INTERNAL_TIMEOUT__'' = Suc (sentinel_count ''ab'')"
      by (subst sentinel_count.simps) (simp only: g2 option.simps a2)
    then show ?thesis by (simp only: n3)
  qed
  have a1: "take 1 ?ab @ strip_crlf (drop (1 + length INTERNAL_TIMEOUT_SENTINEL) ?ab)
            = ''ab__VS_INTERNAL_TIMEOUT__''"
    by (simp add: strip_crlf_def INTERNAL_TIMEOUT_SENTINEL_def CR_def NL_def)
  have n1: "sentinel_count ?ab = 2"
  proof -
    have "sentinel_count ?ab = Suc (sentinel_count ''ab__VS_INTERNAL_TIMEOUT__'')"
      by (subst sentinel_count.simps) (simp only: g1 option.simps a1)
    then show ?thesis by (simp add: n2)
  qed
  from stderr_chunk_without_head [OF h, where now = 0 and sv = ?ab and p1 = 5,
      THEN conjunct2, THEN conjunct2, THEN conjunct2, THEN conjunct2, THEN conjunct2,
      THEN conjunct2, THEN conjunct2, THEN conjunct1]
  have c6: "onChunk 0 True ?ab (shell0\<lparr>pendingTimeoutSentinels := 5\<rparr>)
       = shell0\<lparr>pendingTimeoutSentinels := 3\<rparr>"
    by (simp only: p n1 u) simp
  from c1 c2 c3 c4 c5 c6 show ?thesis by blast
qed

section \<open>Bulk channel: header after open\<close>

lemma MAGIC64_value: "MAGIC64 = 0x14D485356"
  by (simp add: MAGIC64_def VS_HEADER_MAGIC_def VS_HEADER_VERSION_def)

lemma magic_init_header: "magic (init_header F) = 0x4D485356"
  by (simp add: magic_def init_header_def MAGIC64_value)

lemma version_init_header: "version (init_header F) = 1"
  by (simp add: version_def init_header_def MAGIC64_value)

lemma magic_version_of_MAGIC64:
  "magic_and_version h = MAGIC64 \<Longrightarrow> magic h = 0x4D485356 \<and> version h = 1"
  by (simp add: magic_def version_def MAGIC64_value)

lemma init_header_fields:
  "init_header F =
     \<lparr>magic_and_version = 0x14D485356, frame_bytes = F, python_seq = 0, powershell_seq = 0,
      python_length = 0, powershell_length = 0, reserved = replicate 10 0\<rparr>"
  by (simp add: init_header_def zero_header_def set_magic_def set_version_def MAGIC64_value)

text \<open>
  C8. After a successful \<open>VS_OpenChannel\<close> with requested frame capacity \<open>F\<close> the header has
  \<open>magic = 0x4D485356\<close>, \<open>version = 1\<close> and \<open>frame_bytes = F\<close>. When the combined
  magic-and-version field of the view differs from the expected value, a successful
  open has zero-filled the view and written a fresh header with these values; when
  the field matches but the stored \<open>frame_bytes\<close> differs from \<open>F\<close>, the open returns null.
\<close>

theorem open_header_invariant:
  "(VS_OpenChannel ng F ns view sync_ok = Some ch \<longrightarrow>
      magic (hdr ch) = 0x4D485356 \<and> version (hdr ch) = 1 \<and> frame_bytes (hdr ch) = F)
   \<and> (VS_OpenChannel ng F ns (Some (h, a, b)) sync_ok = Some ch \<and> magic_and_version h \<noteq> MAGIC64 \<longrightarrow>
        hdr ch = \<lparr>magic_and_version = 0x14D485356, frame_bytes = F, python_seq = 0,
                   powershell_seq = 0, python_length = 0, powershell_length = 0,
                   reserved = replicate 10 0\<rparr>
        \<and> py2p ch = replicate (length a) 0 \<and> ps2p ch = replicate (length b) 0)
   \<and> (magic_and_version h = MAGIC64 \<and> frame_bytes h \<noteq> F \<longrightarrow>
        VS_OpenChannel ng F ns (Some (h, a, b)) sync_ok = None)"
proof -
  have A: "magic (hdr ch) = 0x4D485356 \<and> version (hdr ch) = 1 \<and> frame_bytes (hdr ch) = F"
    if a: "VS_OpenChannel ng F ns view sync_ok = Some ch"
  proof -
    from a obtain h' a' b' where v: "view = Some (h', a', b')"
      by (cases view) (auto simp: VS_OpenChannel_def Let_def split: if_splits)
    show ?thesis
    proof (cases "magic_and_version h' = MAGIC64")
      case True
      with a v have "hdr ch = h'" "frame_bytes h' = F"
        by (auto simp: VS_OpenChannel_def Let_def split: if_splits)
      with True show ?thesis using magic_version_of_MAGIC64 by simp
    next
      case False
      with a v have "hdr ch = init_header F"
        by (auto simp: VS_OpenChannel_def Let_def split: if_splits)
      then show ?thesis using magic_init_header[of F] version_init_header[of F] by (simp add: init_header_def)
    qed
  qed
  have B: "hdr ch = \<lparr>magic_and_version = 0x14D485356, frame_bytes = F, python_seq = 0,
                   powershell_seq = 0, python_length = 0, powershell_length = 0,
                   reserved = replicate 10 0\<rparr>
        \<and> py2p ch = replicate (length a) 0 \<and> ps2p ch = replicate (length b) 0"
    if "VS_OpenChannel ng F ns (Some (h, a, b)) sync_ok = Some ch \<and> magic_and_version h \<noteq> MAGIC64"
  proof -
    from that have "ch = \<lparr>hdr = init_header F, py2p = map (\<lambda>_. 0) a, ps2p = map (\<lambda>_. 0) b,
                            last_python_seq_read = 0, last_powershell_seq_read = 0\<rparr>"
      by (auto simp: VS_OpenChannel_def Let_def split: if_splits)
    then show ?thesis by (simp add: init_header_fields map_replicate_const)
  qed
  have C: "VS_OpenChannel ng F ns (Some (h, a, b)) sync_ok = None"
    if "magic_and_version h = MAGIC64 \<and> frame_bytes h \<noteq> F"
    using that by (simp add: VS_OpenChannel_def Let_def)
  from A B C show ?thesis by blast
qed

theorem open_header_invariant_witness:
  "VS_OpenChannel True 4 1 (Some (zero_header, [9, 9, 9, 9], [9, 9, 9, 9])) True =
     Some \<lparr>hdr = \<lparr>magic_and_version = 0x14D485356, frame_bytes = 4, python_seq = 0,
                   powershell_seq = 0, python_length = 0, powershell_length = 0,
                   reserved = replicate 10 0\<rparr>,
           py2p = [0, 0, 0, 0], ps2p = [0, 0, 0, 0],
           last_python_seq_read = 0, last_powershell_seq_read = 0\<rparr>
   \<and> magic (init_header 4) = 0x4D485356 \<and> version (init_header 4) = 1
   \<and> VS_OpenChannel True 4 1
        (Some (\<lparr>magic_and_version = 0x14D485356, frame_bytes = 8, python_seq = 5,
                 powershell_seq = 0, python_length = 2, powershell_length = 0,
                 reserved = replicate 10 0\<rparr>, replicate 8 7, replicate 8 0)) True = None"
proof -
  let ?v = "Some (zero_header, [9, 9, 9, 9::u8], [9, 9, 9, 9::u8])"
  let ?ch = "\<lparr>hdr = init_header 4, py2p = [0, 0, 0, 0], ps2p = [0, 0, 0, 0],
           last_python_seq_read = 0, last_powershell_seq_read = 0\<rparr>"
  let ?h = "\<lparr>magic_and_version = 0x14D485356, frame_bytes = 8, python_seq = 5,
                 powershell_seq = 0, python_length = 2, powershell_length = 0,
                 reserved = replicate 10 0\<rparr>"
  have o: "VS_OpenChannel True 4 1 ?v True = Some ?ch"
    by (simp add: VS_OpenChannel_def zero_header_def MAGIC64_value map_layout_def Let_def init_header_fields)
  have m: "magic_and_version ?h = MAGIC64 \<and> frame_bytes ?h \<noteq> 4"
    by (simp add: MAGIC64_value)
  note t = open_header_invariant [of True 4 1 ?v True ?ch ?h "replicate 8 7" "replicate 8 0"]
  from t o m show ?thesis by (simp add: init_header_fields)
qed

section \<open>Bulk channel: write and read\<close>

lemma status_values:
  "VS_OK = 0" "VS_TIMEOUT = 1" "VS_WOULD_BLOCK = 2" "VS_SMALL_BUFFER = 3"
  "VS_INVALID_ARG = - 1" "VS_SYS_ERROR = - 2" "VS_BAD_STATE = - 3"
  by (simp_all add: VS_OK_def VS_TIMEOUT_def VS_WOULD_BLOCK_def VS_SMALL_BUFFER_def
      VS_INVALID_ARG_def VS_SYS_ERROR_def VS_BAD_STATE_def)

lemma memcpy_0: "memcpy dst src 0 = dst" by (simp add: memcpy_def)

lemma write_too_long:
  "len > frame_bytes (hdr c) \<Longrightarrow> write_direction (Some c) d data len w ws = (VS_INVALID_ARG, None, Some c)"
  by (simp add: write_direction_def)

lemma write_ok:
  assumes "len \<le> frame_bytes (hdr c)"
  shows "\<exists>c'. write_direction (Some c) (\<not> py) (Some p) len WAIT_OBJECT_0 ws
              = (VS_OK, (if ws then Some (dir_seq py c + 1) else None), Some c')
          \<and> dir_region py c' = take (unat len) p @ drop (unat len) (dir_region py c)
          \<and> dir_length py c' = len
          \<and> dir_seq py c' = dir_seq py c + 1
          \<and> dir_region (\<not> py) c' = dir_region (\<not> py) c
          \<and> dir_length (\<not> py) c' = dir_length (\<not> py) c
          \<and> dir_seq (\<not> py) c' = dir_seq (\<not> py) c
          \<and> frame_bytes (hdr c') = frame_bytes (hdr c)
          \<and> magic_and_version (hdr c') = magic_and_version (hdr c)
          \<and> dir_last py c' = dir_last py c \<and> dir_last (\<not> py) c' = dir_last (\<not> py) c"
proof -
  have le: "\<not> len > frame_bytes (hdr c)" using assms by simp
  show ?thesis
  proof (cases "len = 0")
    case True
    then show ?thesis using le
      by (cases py) (simp_all add: write_direction_def lock_mutex_def status_values Let_def
          dir_seq_def dir_region_def dir_length_def dir_last_def)
  next
    case False
    then have "len > 0" by (simp add: word_greater_zero_iff)
    then show ?thesis using le
      by (cases py) (simp_all add: write_direction_def lock_mutex_def status_values Let_def
          dir_seq_def dir_region_def dir_length_def dir_last_def memcpy_def)
  qed
qed

lemma write_seq_step:
  "write_direction (Some c) d data len w ws = (st, ns, Some c') \<Longrightarrow>
     dir_seq py c' = dir_seq py c \<or> dir_seq py c' = dir_seq py c + 1"
  by (cases py; cases d)
     (auto simp: write_direction_def Let_def dir_seq_def split: if_splits)

lemma write_some: "\<exists>st ns c'. write_direction (Some c) d data len w ws = (st, ns, Some c')"
  by (auto simp: write_direction_def Let_def)

lemma read_seq_same:
  "read_direction (Some c) r dg cap og t wfl w = Some (st, ol, dat, Some c') \<Longrightarrow> dir_seq py c' = dir_seq py c"
  by (cases py; cases r)
     (auto simp: read_direction_def Let_def dir_seq_def blocked_read_def split: if_splits)

lemma apply_op_seq:
  "dir_seq py (apply_op op c) = dir_seq py c \<or> dir_seq py (apply_op op c) = dir_seq py c + 1"
proof (cases op)
  case (Write d data len w ws)
  obtain st ns c' where e: "write_direction (Some c) d data len w ws = (st, ns, Some c')"
    using write_some by blast
  with Write show ?thesis using write_seq_step[OF e, of py] by simp
next
  case (Read r dg cap og t wfl w)
  show ?thesis
  proof (cases "read_direction (Some c) r dg cap og t wfl w")
    case None
    with Read show ?thesis by simp
  next
    case (Some res)
    obtain st ol dat co where res: "res = (st, ol, dat, co)" by (cases res) auto
    show ?thesis
    proof (cases co)
      case None
      with Read Some res show ?thesis by simp
    next
      case (Some c')
      with Read \<open>read_direction (Some c) r dg cap og t wfl w = Some res\<close> res
      show ?thesis using read_seq_same[of c r dg cap og t wfl w st ol dat c' py] by simp
    qed
  qed
qed

lemma apply_op_unat_seq:
  assumes "unat (dir_seq py c) < 2 ^ 64 - 1"
  shows "unat (dir_seq py c) \<le> unat (dir_seq py (apply_op op c))
       \<and> unat (dir_seq py (apply_op op c)) \<le> unat (dir_seq py c) + 1"
proof -
  have "unat (dir_seq py c + 1) = unat (dir_seq py c) + 1"
    using assms by (simp add: unat_word_ariths)
  with apply_op_seq[of py op c] show ?thesis by auto
qed

lemma run_ops_unat_seq:
  "unat (dir_seq py c) + length ops < 2 ^ 64 \<Longrightarrow>
     unat (dir_seq py c) \<le> unat (dir_seq py (run_ops ops c))
   \<and> unat (dir_seq py (run_ops ops c)) \<le> unat (dir_seq py c) + length ops"
proof (induction ops arbitrary: c)
  case Nil
  then show ?case by (simp add: run_ops_def)
next
  case (Cons op ops)
  have b: "unat (dir_seq py c) < 2 ^ 64 - 1" using Cons.prems by simp
  note s = apply_op_unat_seq[OF b, of op]
  have "unat (dir_seq py (apply_op op c)) + length ops < 2 ^ 64" using s Cons.prems by simp
  from Cons.IH[OF this] s show ?case by (simp add: run_ops_def)
qed

text \<open>
  C5 (amended). A write whose length exceeds \<open>frame_bytes\<close> returns \<open>VS_INVALID_ARG\<close> and
  leaves the channel as it is. A write of a payload within \<open>frame_bytes\<close>, once the mutex
  is acquired, copies the payload to offset 0 of the direction's region, stores the
  length, and increments the direction's sequence counter by one modulo \<open>2^64\<close>, the new
  value being returned as next-seq; nothing of the other direction changes. Over any
  run of writes and reads the counter does not decrease as long as it stays below
  \<open>2^64\<close>; from \<open>2^64 - 1\<close> the increment wraps to \<open>0\<close>.
\<close>

theorem write_direction_effect:
  "(len > frame_bytes (hdr c) \<longrightarrow>
      write_direction (Some c) d data len w ws = (VS_INVALID_ARG, None, Some c))
   \<and> (len \<le> frame_bytes (hdr c) \<longrightarrow>
        (\<exists>c'. write_direction (Some c) (\<not> py) (Some p) len WAIT_OBJECT_0 ws
                = (VS_OK, (if ws then Some (dir_seq py c + 1) else None), Some c')
            \<and> dir_region py c' = take (unat len) p @ drop (unat len) (dir_region py c)
            \<and> dir_length py c' = len
            \<and> dir_seq py c' = dir_seq py c + 1
            \<and> dir_region (\<not> py) c' = dir_region (\<not> py) c
            \<and> dir_length (\<not> py) c' = dir_length (\<not> py) c
            \<and> dir_seq (\<not> py) c' = dir_seq (\<not> py) c
            \<and> frame_bytes (hdr c') = frame_bytes (hdr c)
            \<and> magic_and_version (hdr c') = magic_and_version (hdr c)
            \<and> dir_last py c' = dir_last py c \<and> dir_last (\<not> py) c' = dir_last (\<not> py) c))
   \<and> (unat (dir_seq py c) + length ops < 2 ^ 64 \<longrightarrow>
        dir_seq py c \<le> dir_seq py (run_ops ops c)
        \<and> unat (dir_seq py (run_ops ops c)) \<le> unat (dir_seq py c) + length ops)"
  using write_too_long[of c len d data w ws] write_ok[of len c py p ws]
        run_ops_unat_seq[of py c ops]
  by (simp add: word_le_nat_alt)

theorem write_direction_effect_witness:
  "write_direction (Some chan0) False (Some [1, 2, 3, 4, 5, 6, 7, 8, 9]) 9 WAIT_OBJECT_0 True
     = (- 1, None, Some chan0)
   \<and> (\<exists>c'. write_direction (Some chan0) False (Some [7, 8]) 2 WAIT_OBJECT_0 True
               = (0, Some 2, Some c')
          \<and> dir_region True c' = [7, 8, 3, 0, 0, 0, 0, 0]
          \<and> dir_length True c' = 2 \<and> dir_seq True c' = 2
          \<and> dir_region False c' = [0, 0, 0, 0, 0, 0, 0, 0] \<and> dir_seq False c' = 0)
   \<and> dir_seq True chan0
       \<le> dir_seq True (run_ops [Write False (Some [7, 8]) 2 WAIT_OBJECT_0 True,
                                 Read True True 16 True 0 False WAIT_OBJECT_0] chan0)"
proof -
  have a: "(9::u64) > frame_bytes (hdr chan0)" by (simp add: chan0_def)
  have a2: "(2::u64) \<le> frame_bytes (hdr chan0)" by (simp add: chan0_def)
  have b: "unat (dir_seq True chan0)
             + length [Write False (Some [7, 8]) 2 WAIT_OBJECT_0 True,
                       Read True True 16 True 0 False WAIT_OBJECT_0] < 2 ^ 64"
    by (simp add: dir_seq_def chan0_def)
  have v: "dir_seq True chan0 = 1" "dir_region True chan0 = [1, 2, 3, 0, 0, 0, 0, 0]"
    "dir_region False chan0 = [0, 0, 0, 0, 0, 0, 0, 0]" "dir_seq False chan0 = 0"
    by (simp_all add: dir_seq_def dir_region_def chan0_def)
  note t1 = write_direction_effect
      [where len = 9 and c = chan0 and d = False and data = "Some [1, 2, 3, 4, 5, 6, 7, 8, 9]"
         and w = WAIT_OBJECT_0 and ws = True and py = True and p = "[7, 8]"
         and ops = "[Write False (Some [7, 8]) 2 WAIT_OBJECT_0 True,
                     Read True True 16 True 0 False WAIT_OBJECT_0]"]
  note t2 = write_direction_effect
      [where len = 2 and c = chan0 and d = False and data = "Some [7, 8]"
         and w = WAIT_OBJECT_0 and ws = True and py = True and p = "[7, 8]" and ops = "[]"]
  from t1 a b have c1: "write_direction (Some chan0) False (Some [1, 2, 3, 4, 5, 6, 7, 8, 9]) 9
                          WAIT_OBJECT_0 True = (- 1, None, Some chan0)"
    and c3: "dir_seq True chan0
       \<le> dir_seq True (run_ops [Write False (Some [7, 8]) 2 WAIT_OBJECT_0 True,
                                 Read True True 16 True 0 False WAIT_OBJECT_0] chan0)"
    by (simp_all add: status_values)
  from t2 a2 obtain c' where
    "write_direction (Some chan0) (\<not> True) (Some [7, 8]) 2 WAIT_OBJECT_0 True
       = (VS_OK, Some (dir_seq True chan0 + 1), Some c')"
    "dir_region True c' = take (unat (2::u64)) [7, 8] @ drop (unat (2::u64)) (dir_region True chan0)"
    "dir_length True c' = 2" "dir_seq True c' = dir_seq True chan0 + 1"
    "dir_region (\<not> True) c' = dir_region (\<not> True) chan0"
    "dir_seq (\<not> True) c' = dir_seq (\<not> True) chan0"
    by auto
  then have c2: "write_direction (Some chan0) False (Some [7, 8]) 2 WAIT_OBJECT_0 True
               = (0, Some 2, Some c')
          \<and> dir_region True c' = [7, 8, 3, 0, 0, 0, 0, 0]
          \<and> dir_length True c' = 2 \<and> dir_seq True c' = 2
          \<and> dir_region False c' = [0, 0, 0, 0, 0, 0, 0, 0] \<and> dir_seq False c' = 0"
    by (simp add: v status_values)
  from c1 c2 c3 show ?thesis by blast
qed

theorem write_direction_wrap_counterexample:
  "(1::u64) \<le> frame_bytes (hdr chan_max)
   \<and> write_direction (Some chan_max) False (Some [9]) 1 WAIT_OBJECT_0 True
       = (VS_OK, Some 0,
          Some (chan_max\<lparr>py2p := [9, 2, 3, 0, 0, 0, 0, 0],
                         hdr := (hdr chan_max)\<lparr>python_length := 1, python_seq := 0\<rparr>\<rparr>))
   \<and> python_seq (hdr chan_max) = 0xFFFFFFFFFFFFFFFF
   \<and> (0::u64) < python_seq (hdr chan_max)"
  by (simp add: write_direction_def chan_max_def chan0_def lock_mutex_def memcpy_def Let_def
      status_values)

text \<open>
  C6 (amended). A read with a timeout of zero, while the direction's sequence counter
  has not advanced past the reader's last consumed value, returns \<open>VS_TIMEOUT\<close> (1) and
  touches neither the channel nor the output length; \<open>VS_WOULD_BLOCK\<close> (2) is not what
  it returns.
\<close>

theorem read_zero_timeout_status:
  "\<not> dir_seq py c > dir_last py c \<Longrightarrow>
     read_direction (Some c) py dst_given cap True 0 wait_fails w
       = Some (VS_TIMEOUT, None, None, Some c)
     \<and> VS_TIMEOUT = 1 \<and> VS_TIMEOUT \<noteq> VS_WOULD_BLOCK"
  by (simp add: read_direction_def dir_seq_def dir_last_def Let_def status_values)

theorem read_zero_timeout_status_witness:
  "read_direction (Some chan0) False True 16 True 0 False WAIT_OBJECT_0
     = Some (1, None, None, Some chan0)"
  using read_zero_timeout_status [of False chan0 True 16 False WAIT_OBJECT_0]
  by (simp add: dir_seq_def dir_last_def chan0_def)

theorem read_zero_timeout_counterexample:
  "\<not> dir_seq False chan0 > dir_last False chan0
   \<and> read_direction (Some chan0) False True 16 True 0 False WAIT_OBJECT_0
       = Some (VS_TIMEOUT, None, None, Some chan0)
   \<and> read_direction (Some chan0) False True 16 True 0 False WAIT_OBJECT_0
       \<noteq> Some (VS_WOULD_BLOCK, None, None, Some chan0)"
  by (simp add: read_direction_def dir_seq_def dir_last_def chan0_def Let_def status_values)

text \<open>
  C7 (amended). A read with a null output buffer, performed when new data is available
  and the mutex is acquired, returns \<open>VS_OK\<close> and reports the stored payload length; it
  copies nothing, leaves the header as it is, and sets the reader's last consumed
  sequence value to the current counter, so that a following read with a zero timeout
  finds nothing new and returns \<open>VS_TIMEOUT\<close>.
\<close>

theorem probe_read_consumes:
  assumes "dir_seq py c > dir_last py c" and "dir_length py c \<le> frame_bytes (hdr c)"
  shows "read_direction (Some c) py False cap True t wait_fails WAIT_OBJECT_0
           = Some (VS_OK, Some (dir_length py c), None, Some (set_dir_last py (dir_seq py c) c))
         \<and> hdr (set_dir_last py (dir_seq py c) c) = hdr c
         \<and> dir_last py (set_dir_last py (dir_seq py c) c) = dir_seq py c
         \<and> read_direction (Some (set_dir_last py (dir_seq py c) c)) py True cap' True 0 wait_fails' w'
           = Some (VS_TIMEOUT, None, None, Some (set_dir_last py (dir_seq py c) c))"
  using assms
  by (auto simp add: read_direction_def dir_seq_def dir_last_def dir_length_def set_dir_last_def Let_def lock_mutex_def status_values)

theorem probe_read_counterexample:
  "dir_seq True chan0 > dir_last True chan0
   \<and> read_direction (Some chan0) True False 0 True 0 False WAIT_OBJECT_0
       = Some (VS_OK, Some 3, None, Some (chan0\<lparr>last_python_seq_read := 1\<rparr>))
   \<and> last_python_seq_read (chan0\<lparr>last_python_seq_read := 1\<rparr>) \<noteq> last_python_seq_read chan0
   \<and> read_direction (Some (chan0\<lparr>last_python_seq_read := 1\<rparr>)) True True 16 True 0 False WAIT_OBJECT_0
       = Some (VS_TIMEOUT, None, None, Some (chan0\<lparr>last_python_seq_read := 1\<rparr>))"
  by (simp add: read_direction_def dir_seq_def dir_last_def chan0_def Let_def lock_mutex_def status_values)

theorem probe_read_consumes_witness:
  "read_direction (Some chan0) True False 0 True 0 False WAIT_OBJECT_0
           = Some (0, Some 3, None, Some (chan0\<lparr>last_python_seq_read := 1\<rparr>))
   \<and> read_direction (Some (chan0\<lparr>last_python_seq_read := 1\<rparr>)) True True 16 True 0 False WAIT_OBJECT_0
       = Some (1, None, None, Some (chan0\<lparr>last_python_seq_read := 1\<rparr>))"
proof -
  have a: "dir_seq True chan0 > dir_last True chan0" by (simp add: dir_seq_def dir_last_def chan0_def)
  have b: "dir_length True chan0 \<le> frame_bytes (hdr chan0)" by (simp add: dir_length_def chan0_def)
  have c: "set_dir_last True (dir_seq True chan0) chan0 = chan0\<lparr>last_python_seq_read := 1\<rparr>"
    by (simp add: set_dir_last_def dir_seq_def chan0_def)
  have d: "dir_length True chan0 = 3" by (simp add: dir_length_def chan0_def)
  show ?thesis
    using probe_read_consumes [OF a b, of 0 0 False 16 False WAIT_OBJECT_0]
    by (simp add: c d status_values)
qed

section \<open>The stdout demultiplexer\<close>

lemma resolved_ids_append: "resolved_ids (xs @ ys) = resolved_ids xs @ resolved_ids ys"
  by (induction xs rule: resolved_ids.induct) auto

lemma resolved_ids_delivery: "resolved_ids (delivery S r) = [cmd_id S]"
  by (cases "cb S") (simp_all add: delivery_def)

lemma completeCmdLocked_fresh:
  assumes "\<not> is_done S" and "prom S = None"
  shows "completeCmdLocked now succ S =
           (S\<lparr>is_done := True, outBuf := [], errBuf := [],
              prom := Some \<lparr>out = outBuf S, err = errBuf S,
                            exitCode = (if succ \<and> \<not> timedOut S then 0 else - 1),
                            success = (succ \<and> \<not> timedOut S),
                            executionTime = now - tStart S\<rparr>\<rparr>,
            delivery S \<lparr>out = outBuf S, err = errBuf S,
                        exitCode = (if succ \<and> \<not> timedOut S then 0 else - 1),
                        success = (succ \<and> \<not> timedOut S),
                        executionTime = now - tStart S\<rparr>)"
  using assms
  by (cases "cb S") (simp_all add: completeCmdLocked_def Let_def resolve_and_notify_fresh delivery_def)

lemma finish_head_effect:
  assumes "\<not> is_done S" and "prom S = None" and "cmd_id S = i"
    and "mpos + length (endMarker S) \<le> length (outBuf S)"
  shows "finish_head now i S mpos s =
           (strip_crlf (drop (mpos + length (endMarker S)) (outBuf S)),
            s\<lparr>inflight := (inflight s)(i := None),
              inflightOrder := tl (inflightOrder s),
              inflightCount := inflightCount s - 1,
              trace := trace s @ delivery S (end_marker_result now S (take mpos (outBuf S)))
                       @ [Erased i]\<rparr>)"
proof -
  let ?S1 = "S\<lparr>outBuf := take mpos (outBuf S)\<rparr>"
  have c: "completeCmdLocked now True ?S1 =
             (?S1\<lparr>is_done := True, outBuf := [], errBuf := [],
                   prom := Some (end_marker_result now S (take mpos (outBuf S)))\<rparr>,
              delivery S (end_marker_result now S (take mpos (outBuf S))))"
    using assms(1,2)
    by (cases "cb S") (simp_all add: completeCmdLocked_fresh end_marker_result_def delivery_def)
  have d: "(if skip_crlf (outBuf S) (mpos + length (endMarker S)) < length (outBuf S)
            then drop (skip_crlf (outBuf S) (mpos + length (endMarker S))) (outBuf S) else [])
           = strip_crlf (drop (mpos + length (endMarker S)) (outBuf S))"
    using skip_crlf_drop[OF assms(4)] by auto
  show ?thesis
    unfolding finish_head_def Let_def c d using assms(3) by simp
qed

lemma stdout_loop_stop:
  "carry = [] \<or> inflightOrder s = [] \<Longrightarrow> stdout_loop now carry s = s"
  by (subst stdout_loop.simps) auto

lemma stdout_loop_missing:
  assumes "carry \<noteq> []" "inflightOrder s = i # rest" "inflight s i = None"
  shows "stdout_loop now carry s = stdout_loop now carry (s\<lparr>inflightOrder := rest\<rparr>)"
  using assms by (subst stdout_loop.simps) (simp add: Let_def)

lemma stdout_loop_Inl:
  assumes "carry \<noteq> []" "inflightOrder s = i # rest" "inflight s i = Some S"
    and "scan_begin S carry = Inl S'"
  shows "stdout_loop now carry s = s\<lparr>inflight := (inflight s)(i \<mapsto> S')\<rparr>"
  using assms by (subst stdout_loop.simps) (simp add: Let_def)

lemma stdout_loop_no_end:
  assumes "carry \<noteq> []" "inflightOrder s = i # rest" "inflight s i = Some S"
    and "scan_begin S carry = Inr (S1, carry1)"
    and "str_find (outBuf S1 @ carry1) (endMarker S1) = None"
  shows "stdout_loop now carry s = s\<lparr>inflight := (inflight s)(i \<mapsto> S1\<lparr>outBuf := outBuf S1 @ carry1\<rparr>)\<rparr>"
  using assms by (subst stdout_loop.simps) (simp add: Let_def)

lemma stdout_loop_end:
  assumes "carry \<noteq> []" "inflightOrder s = i # rest" "inflight s i = Some S"
    and "scan_begin S carry = Inr (S1, carry1)"
    and "str_find (outBuf S1 @ carry1) (endMarker S1) = Some mpos"
  shows "stdout_loop now carry s =
           stdout_loop now (fst (finish_head now i (S1\<lparr>outBuf := outBuf S1 @ carry1\<rparr>) mpos s))
             (snd (finish_head now i (S1\<lparr>outBuf := outBuf S1 @ carry1\<rparr>) mpos s))"
  using assms by (subst stdout_loop.simps) (simp add: Let_def split: prod.splits)

lemma scan_begin_Inl_keeps:
  "scan_begin S carry = Inl S' \<Longrightarrow>
     cmd_id S' = cmd_id S \<and> is_done S' = is_done S \<and> prom S' = prom S"
  by (auto simp: scan_begin_def Let_def split: if_splits option.splits)

lemma scan_begin_Inr_keeps:
  "scan_begin S carry = Inr (S1, carry1) \<Longrightarrow>
     cmd_id S1 = cmd_id S \<and> is_done S1 = is_done S \<and> prom S1 = prom S
     \<and> errBuf S1 = errBuf S \<and> timedOut S1 = timedOut S \<and> tStart S1 = tStart S
     \<and> cb S1 = cb S \<and> endMarker S1 = endMarker S \<and> outBuf S1 = outBuf S"
  by (auto simp: scan_begin_def Let_def split: if_splits option.splits)

lemma scan_begin_found:
  assumes "\<not> begun S" and "first_occurrence (preBuf S @ carry) (beginMarker S) k"
  shows "scan_begin S carry =
           Inr (S\<lparr>preBuf := [], begun := True\<rparr>,
                strip_crlf (drop (k + length (beginMarker S)) (preBuf S @ carry)))"
proof -
  have f: "str_find (preBuf S @ carry) (beginMarker S) = Some k"
    using assms(2) by (simp add: str_find_iff)
  have le: "k + length (beginMarker S) \<le> length (preBuf S @ carry)"
    using assms(2) by (rule first_occurrence_le)
  have d: "(if skip_crlf (preBuf S @ carry) (k + length (beginMarker S)) < length (preBuf S @ carry)
            then drop (skip_crlf (preBuf S @ carry) (k + length (beginMarker S))) (preBuf S @ carry)
            else [])
           = strip_crlf (drop (k + length (beginMarker S)) (preBuf S @ carry))"
    using skip_crlf_drop[OF le] by auto
  show ?thesis using assms(1)
    by (simp add: scan_begin_def Let_def f skip_crlf_drop[OF le, symmetric]
          del: drop_append length_append)
qed

lemma tracker_ok_head:
  assumes "tracker_ok s" and "inflightOrder s = i # rest" and "inflight s i = Some S"
  shows "cmd_id S = i \<and> \<not> is_done S \<and> prom S = None"
  using assms by (auto simp: tracker_ok_def)

lemma tracker_ok_drop_head:
  assumes ok: "tracker_ok s" and q: "inflightOrder s = i # rest" and m: "inflight s i = None"
  shows "tracker_ok (s\<lparr>inflightOrder := rest\<rparr>)
       \<and> live_order (s\<lparr>inflightOrder := rest\<rparr>) = live_order s"
  using assms by (auto simp: tracker_ok_def live_order_def)

lemma tracker_ok_update_head:
  assumes ok: "tracker_ok s" and q: "inflightOrder s = i # rest" and m: "inflight s i = Some S"
    and S': "cmd_id S' = i" "\<not> is_done S'" "prom S' = None"
  shows "tracker_ok (s\<lparr>inflight := (inflight s)(i \<mapsto> S')\<rparr>)
       \<and> live_order (s\<lparr>inflight := (inflight s)(i \<mapsto> S')\<rparr>) = live_order s"
proof -
  have "i \<in> dom (inflight s)" using m by auto
  then have dm: "dom ((inflight s)(i \<mapsto> S')) = dom (inflight s)" by auto
  have a: "tracker_ok (s\<lparr>inflight := (inflight s)(i \<mapsto> S')\<rparr>)"
    using ok S' dm by (auto simp: tracker_ok_def)
  have "\<And>j. (((inflight s)(i \<mapsto> S')) j \<noteq> None) = (inflight s j \<noteq> None)"
    using m by auto
  then have b: "live_order (s\<lparr>inflight := (inflight s)(i \<mapsto> S')\<rparr>) = live_order s"
    by (simp add: live_order_def)
  from a b show ?thesis ..
qed

lemma tracker_ok_pop_head:
  assumes ok: "tracker_ok s" and q: "inflightOrder s = i # rest" and m: "inflight s i = Some S"
  shows "tracker_ok (s\<lparr>inflight := (inflight s)(i := None),
                       inflightOrder := tl (inflightOrder s),
                       inflightCount := c, trace := tr\<rparr>)
       \<and> i # live_order (s\<lparr>inflight := (inflight s)(i := None),
                            inflightOrder := tl (inflightOrder s),
                            inflightCount := c, trace := tr\<rparr>) = live_order s"
proof -
  from ok q have d: "distinct rest" "i \<notin> set rest" by (auto simp: tracker_ok_def)
  have a: "tracker_ok (s\<lparr>inflight := (inflight s)(i := None),
                       inflightOrder := tl (inflightOrder s),
                       inflightCount := c, trace := tr\<rparr>)"
    using ok q d by (auto simp: tracker_ok_def split: if_splits)
  have "filter (\<lambda>j. ((inflight s)(i := None)) j \<noteq> None) rest
          = filter (\<lambda>j. inflight s j \<noteq> None) rest"
    using d(2) by (intro filter_cong) auto
  then have b: "i # live_order (s\<lparr>inflight := (inflight s)(i := None),
                            inflightOrder := tl (inflightOrder s),
                            inflightCount := c, trace := tr\<rparr>) = live_order s"
    using q m by (simp add: live_order_def)
  from a b show ?thesis ..
qed

lemma stdout_loop_order:
  "tracker_ok s \<Longrightarrow>
     tracker_ok (stdout_loop now carry s)
     \<and> resolved_ids (trace (stdout_loop now carry s)) @ live_order (stdout_loop now carry s)
         = resolved_ids (trace s) @ live_order s
     \<and> seq (stdout_loop now carry s) = seq s
     \<and> isRunning (stdout_loop now carry s) = isRunning s
     \<and> lifecycleGate (stdout_loop now carry s) = lifecycleGate s"
proof (induction "length (inflightOrder s)" arbitrary: s carry)
  case 0
  then show ?case by (simp add: stdout_loop_stop)
next
  case (Suc n)
  then obtain i rest where q: "inflightOrder s = i # rest" by (cases "inflightOrder s") auto
  show ?case
  proof (cases "carry = []")
    case True
    with Suc.prems show ?thesis by (simp add: stdout_loop_stop)
  next
    case ne: False
    show ?thesis
    proof (cases "inflight s i")
      case None
      let ?s1 = "s\<lparr>inflightOrder := rest\<rparr>"
      have e: "stdout_loop now carry s = stdout_loop now carry ?s1"
        by (rule stdout_loop_missing[OF ne q None])
      note dh = tracker_ok_drop_head[OF Suc.prems q None]
      have len: "n = length (inflightOrder ?s1)" using Suc.hyps(2) q by simp
      note ih = Suc.hyps(1)[OF len dh[THEN conjunct1], of carry]
      show ?thesis unfolding e using ih dh by simp
    next
      case (Some S)
      note m = Some
      from tracker_ok_head[OF Suc.prems q m]
      have S: "cmd_id S = i" "\<not> is_done S" "prom S = None" by simp_all
      show ?thesis
      proof (cases "scan_begin S carry")
        case (Inl S')
        note k = scan_begin_Inl_keeps[OF Inl]
        have e: "stdout_loop now carry s = s\<lparr>inflight := (inflight s)(i \<mapsto> S')\<rparr>"
          by (rule stdout_loop_Inl[OF ne q m Inl])
        have "tracker_ok (s\<lparr>inflight := (inflight s)(i \<mapsto> S')\<rparr>)
            \<and> live_order (s\<lparr>inflight := (inflight s)(i \<mapsto> S')\<rparr>) = live_order s"
          using tracker_ok_update_head[OF Suc.prems q m, of S'] k S by simp
        then show ?thesis unfolding e by simp
      next
        case (Inr p)
        obtain S1 carry1 where p: "p = (S1, carry1)" by (cases p) auto
        note sb = Inr[unfolded p]
        note k = scan_begin_Inr_keeps[OF sb]
        let ?S2 = "S1\<lparr>outBuf := outBuf S1 @ carry1\<rparr>"
        show ?thesis
        proof (cases "str_find (outBuf S1 @ carry1) (endMarker S1)")
          case None
          have e: "stdout_loop now carry s = s\<lparr>inflight := (inflight s)(i \<mapsto> ?S2)\<rparr>"
            by (rule stdout_loop_no_end[OF ne q m sb None])
          have "tracker_ok (s\<lparr>inflight := (inflight s)(i \<mapsto> ?S2)\<rparr>)
              \<and> live_order (s\<lparr>inflight := (inflight s)(i \<mapsto> ?S2)\<rparr>) = live_order s"
            using tracker_ok_update_head[OF Suc.prems q m, of ?S2] k S by simp
          then show ?thesis unfolding e by simp
        next
          case (Some mpos)
          have e: "stdout_loop now carry s =
                     stdout_loop now (fst (finish_head now i ?S2 mpos s)) (snd (finish_head now i ?S2 mpos s))"
            by (rule stdout_loop_end[OF ne q m sb Some])
          have le: "mpos + length (endMarker ?S2) \<le> length (outBuf ?S2)"
            using Some first_occurrence_le[of "outBuf S1 @ carry1" "endMarker S1" mpos]
            by (simp add: str_find_iff)
          have S2: "\<not> is_done ?S2" "prom ?S2 = None" "cmd_id ?S2 = i" using k S by simp_all
          note fh = finish_head_effect[OF S2 le, of now s]
          let ?s4 = "snd (finish_head now i ?S2 mpos s)"
          note ph = tracker_ok_pop_head[OF Suc.prems q m, where c = "inflightCount s - 1"
              and tr = "trace s @ delivery ?S2 (end_marker_result now ?S2 (take mpos (outBuf ?S2))) @ [Erased i]"]
          have ok4: "tracker_ok ?s4"
            unfolding fh snd_conv using ph by simp
          have lv: "i # live_order ?s4 = live_order s"
            unfolding fh snd_conv using ph by simp
          have len: "n = length (inflightOrder ?s4)"
            unfolding fh snd_conv using Suc.hyps(2) q by simp
          note ih = Suc.hyps(1)[OF len ok4, of "fst (finish_head now i ?S2 mpos s)"]
          have "resolved_ids (trace ?s4) = resolved_ids (trace s) @ [i]"
            unfolding fh snd_conv using S2(3)
            by (simp add: resolved_ids_append resolved_ids_delivery)
          then have tr: "resolved_ids (trace ?s4) @ live_order ?s4 = resolved_ids (trace s) @ live_order s"
            using lv[symmetric] by simp
          have misc: "seq ?s4 = seq s" "isRunning ?s4 = isRunning s" "lifecycleGate ?s4 = lifecycleGate s"
            unfolding fh snd_conv by simp_all
          show ?thesis unfolding e using ih tr misc by simp
        qed
      qed
    qed
  qed
qed

lemma unat_succ: "unat (q::u64) < 2 ^ 64 - 1 \<Longrightarrow> unat (q + 1) = unat q + 1"
proof -
  assume a: "unat q < 2 ^ 64 - 1"
  then have "unat q + unat (1::u64) < 2 ^ LENGTH(64)" by simp
  then have "unat (q + 1) = unat q + unat (1::u64)" by (simp only: unat_add_lem)
  then show ?thesis by simp
qed

lemma upt_shift: "[1..<Suc (Suc n)] = 1 # map Suc [1..<Suc n]"
  by (simp add: map_Suc_upt upt_conv_Cons del: upt_Suc)

lemma fresh_ids_Suc: "fresh_ids q (Suc n) = (q + 1) # fresh_ids (q + 1) n"
proof -
  have s: "\<And>k. q + of_nat (Suc k) = (q + 1) + (of_nat k :: u64)" by (simp add: algebra_simps)
  have "fresh_ids q (Suc n) = map (\<lambda>k. q + of_nat k) (1 # map Suc [1..<Suc n])"
    unfolding fresh_ids_def upt_shift ..
  also have "\<dots> = (q + 1) # map (\<lambda>k. q + of_nat (Suc k)) [1..<Suc n]"
  proof -
    have "q + of_nat (1::nat) = q + (1::u64)" by simp
    then show ?thesis by (simp add: comp_def del: upt_Suc of_nat_Suc)
  qed
  also have "\<dots> = (q + 1) # fresh_ids (q + 1) n"
    unfolding s fresh_ids_def ..
  finally show ?thesis .
qed


lemma submit_keeps_order:
  assumes ok: "tracker_ok s" and run: "isRunning s" and gate: "\<not> lifecycleGate s"
    and room: "unat (seq s) < 2 ^ 64 - 1"
  shows "tracker_ok (snd (submit now cmd t c bypass s))
       \<and> live_order (snd (submit now cmd t c bypass s)) = live_order s @ [seq s + 1]
       \<and> resolved_ids (trace (snd (submit now cmd t c bypass s))) = resolved_ids (trace s)
       \<and> seq (snd (submit now cmd t c bypass s)) = seq s + 1
       \<and> isRunning (snd (submit now cmd t c bypass s))
       \<and> \<not> lifecycleGate (snd (submit now cmd t c bypass s))"
proof -
  let ?i = "seq s + 1"
  let ?S = "new_CmdState now ?i t c (config_timeoutSeconds s)"
  have u: "unat ?i = unat (seq s) + 1" using room by (rule unat_succ)
  have fresh: "inflight s ?i = None"
  proof (rule ccontr)
    assume "inflight s ?i \<noteq> None"
    then have "?i \<in> dom (inflight s)" by auto
    with ok have "unat ?i \<le> unat (seq s)" by (auto simp: tracker_ok_def)
    with u show False by simp
  qed
  have notin: "?i \<notin> set (inflightOrder s)"
  proof
    assume "?i \<in> set (inflightOrder s)"
    with ok have "unat ?i \<le> unat (seq s)" by (auto simp: tracker_ok_def)
    with u show False by simp
  qed
  have e: "snd (submit now cmd t c bypass s) =
             submit_enqueue ?i cmd (submit_count (submit_register ?i ?S (s\<lparr>seq := ?i\<rparr>)))"
    using submit_accepted[of s bypass now cmd t c] run gate by simp
  have S: "cmd_id ?S = ?i" "\<not> is_done ?S" "prom ?S = None"
    by (simp_all add: new_CmdState_def Let_def)
  have inf: "inflight (snd (submit now cmd t c bypass s)) = (inflight s)(?i \<mapsto> ?S)"
    unfolding e using fresh by (simp add: submit_enqueue_def submit_register_def Let_def)
  have ord: "inflightOrder (snd (submit now cmd t c bypass s)) = inflightOrder s @ [?i]"
    unfolding e by (simp add: submit_enqueue_def submit_register_def Let_def)
  have sq: "seq (snd (submit now cmd t c bypass s)) = ?i"
    unfolding e by (simp add: submit_enqueue_def submit_register_def Let_def)
  have tr: "trace (snd (submit now cmd t c bypass s))
              = trace s @ [Registered ?i, Enqueued ?i (build_pwsh_packet ?i cmd)]"
    unfolding e by (simp add: submit_enqueue_def submit_register_def Let_def)
  have fl: "isRunning (snd (submit now cmd t c bypass s))"
    "\<not> lifecycleGate (snd (submit now cmd t c bypass s))"
    unfolding e using run gate by (simp_all add: submit_enqueue_def submit_register_def Let_def)
  have ok': "tracker_ok (snd (submit now cmd t c bypass s))"
    unfolding tracker_ok_def inf ord sq
  proof (intro conjI ballI allI impI)
    show "distinct (inflightOrder s @ [?i])" using ok notin by (simp add: tracker_ok_def)
  next
    fix j Sa assume j: "j \<in> set (inflightOrder s @ [?i])"
      and a: "((inflight s)(?i \<mapsto> ?S)) j = Some Sa"
    show "cmd_id Sa = j"
    proof (cases "j = ?i")
      case True
      with a S show ?thesis by simp
    next
      case False
      with j a ok show ?thesis by (auto simp: tracker_ok_def)
    qed
    show "\<not> is_done Sa"
    proof (cases "j = ?i")
      case True
      with a S show ?thesis by auto
    next
      case False
      with j a ok show ?thesis by (auto simp: tracker_ok_def)
    qed
    show "prom Sa = None"
    proof (cases "j = ?i")
      case True
      with a S show ?thesis by auto
    next
      case False
      with j a ok show ?thesis by (auto simp: tracker_ok_def)
    qed
  next
    fix j assume "j \<in> set (inflightOrder s @ [?i])"
    then consider "j = ?i" | "j \<in> set (inflightOrder s)" by auto
    then show "unat j \<le> unat ?i"
    proof cases
      case 1
      then show ?thesis by simp
    next
      case 2
      with ok have "unat j \<le> unat (seq s)" by (auto simp: tracker_ok_def)
      with u show ?thesis by simp
    qed
  next
    fix j assume "j \<in> dom ((inflight s)(?i \<mapsto> ?S))"
    then consider "j = ?i" | "j \<in> dom (inflight s)" by auto
    then show "unat j \<le> unat ?i"
    proof cases
      case 1
      then show ?thesis by simp
    next
      case 2
      with ok have "unat j \<le> unat (seq s)" by (auto simp: tracker_ok_def)
      with u show ?thesis by simp
    qed
  qed
  have "filter (\<lambda>j. ((inflight s)(?i \<mapsto> ?S)) j \<noteq> None) (inflightOrder s)
          = filter (\<lambda>j. inflight s j \<noteq> None) (inflightOrder s)"
    using notin by (intro filter_cong) auto
  then have lv: "live_order (snd (submit now cmd t c bypass s)) = live_order s @ [?i]"
    unfolding live_order_def inf ord by simp
  show ?thesis using ok' lv sq fl tr by (simp add: resolved_ids_append)
qed

lemma fresh_ids_0: "fresh_ids q 0 = []"
  by (simp add: fresh_ids_def)

lemma run_actions_order:
  "tracker_ok s \<Longrightarrow> isRunning s \<Longrightarrow> \<not> lifecycleGate s \<Longrightarrow>
   unat (seq s) + count_submits acts < 2 ^ 64 \<Longrightarrow>
     resolved_ids (trace (run_actions acts s)) @ live_order (run_actions acts s)
       = resolved_ids (trace s) @ live_order s @ fresh_ids (seq s) (count_submits acts)
     \<and> tracker_ok (run_actions acts s)"
proof (induction acts arbitrary: s)
  case Nil
  then show ?case by (simp add: run_actions_def fresh_ids_0)
next
  case (Cons a acts)
  show ?case
  proof (cases a)
    case (Submit now cmd t c bypass)
    let ?s' = "snd (submit now cmd t c bypass s)"
    have room: "unat (seq s) < 2 ^ 64 - 1" using Cons.prems(4) Submit by simp
    note st = submit_keeps_order[OF Cons.prems(1,2,3) room, of now cmd t c bypass]
    have u: "unat (seq s + 1) = unat (seq s) + 1" using room by (rule unat_succ)
    have room': "unat (seq ?s') + count_submits acts < 2 ^ 64"
      using st u Cons.prems(4) Submit by simp
    from st have a1: "tracker_ok ?s'" and a2: "isRunning ?s'" and a3: "\<not> lifecycleGate ?s'"
      by simp_all
    note ih = Cons.IH[OF a1 a2 a3 room']
    have r: "run_actions (a # acts) s = run_actions acts ?s'"
      using Submit by (simp add: run_actions_def)
    show ?thesis unfolding r using ih st Submit by (simp add: fresh_ids_Suc)
  next
    case (Stdout now sv)
    let ?s' = "onChunk now False sv s"
    have o: "tracker_ok ?s'
       \<and> resolved_ids (trace ?s') @ live_order ?s' = resolved_ids (trace s) @ live_order s
       \<and> seq ?s' = seq s \<and> isRunning ?s' = isRunning s \<and> lifecycleGate ?s' = lifecycleGate s"
    proof (cases "sv = []")
      case True
      then show ?thesis using Cons.prems(1) by (simp add: onChunk_def)
    next
      case False
      then show ?thesis using stdout_loop_order[OF Cons.prems(1), of now sv]
        by (simp add: onChunk_def)
    qed
    then have a1: "tracker_ok ?s'" and a2: "isRunning ?s'" and a3: "\<not> lifecycleGate ?s'"
      using Cons.prems by simp_all
    have room': "unat (seq ?s') + count_submits acts < 2 ^ 64"
      using o Cons.prems(4) Stdout by simp
    note ih = Cons.IH[OF a1 a2 a3 room']
    have r: "run_actions (a # acts) s = run_actions acts ?s'"
      using Stdout by (simp add: run_actions_def)
    have "resolved_ids (trace (run_actions acts ?s')) @ live_order (run_actions acts ?s')
            = (resolved_ids (trace ?s') @ live_order ?s') @ fresh_ids (seq ?s') (count_submits acts)"
      using ih by simp
    also have "\<dots> = (resolved_ids (trace s) @ live_order s) @ fresh_ids (seq s) (count_submits acts)"
      using o by simp
    finally show ?thesis unfolding r using ih Stdout by simp
  qed
qed

lemma onChunk_stdout: "onChunk now False sv s = stdout_loop now sv s"
  by (simp add: onChunk_def stdout_loop_stop)

lemma delivery_same: "cmd_id S' = cmd_id S \<Longrightarrow> cb S' = cb S \<Longrightarrow> delivery S' r = delivery S r"
  by (simp add: delivery_def split: option.splits)

lemma end_marker_result_same:
  "errBuf S' = errBuf S \<Longrightarrow> timedOut S' = timedOut S \<Longrightarrow> tStart S' = tStart S \<Longrightarrow>
     end_marker_result now S' body = end_marker_result now S body"
  by (simp add: end_marker_result_def)

lemma stdout_loop_complete_begun:
  assumes q: "inflightOrder s = i # rest" and S: "inflight s i = Some S" "cmd_id S = i"
    "\<not> is_done S" "prom S = None"
    and b: "begun S" and ne: "carry \<noteq> []"
    and dec: "outBuf S @ carry = body @ endMarker S @ after"
    and f: "first_occurrence (outBuf S @ carry) (endMarker S) (length body)"
  shows "stdout_loop now carry s =
           stdout_loop now (strip_crlf after)
             (s\<lparr>inflight := (inflight s)(i := None), inflightOrder := rest,
                inflightCount := inflightCount s - 1,
                trace := trace s @ delivery S (end_marker_result now S body) @ [Erased i]\<rparr>)"
proof -
  let ?S2 = "S\<lparr>outBuf := outBuf S @ carry\<rparr>"
  have sb: "scan_begin S carry = Inr (S, carry)" using b by (simp add: scan_begin_def)
  have sf: "str_find (outBuf S @ carry) (endMarker S) = Some (length body)"
    using f by (simp add: str_find_iff)
  have e: "stdout_loop now carry s =
             stdout_loop now (fst (finish_head now i ?S2 (length body) s))
               (snd (finish_head now i ?S2 (length body) s))"
    by (rule stdout_loop_end[OF ne q S(1) sb sf])
  have le: "length body + length (endMarker ?S2) \<le> length (outBuf ?S2)"
    using first_occurrence_le[OF f] by simp
  have S2: "\<not> is_done ?S2" "prom ?S2 = None" "cmd_id ?S2 = i" using S by simp_all
  have t: "take (length body) (outBuf ?S2) = body"
    "drop (length body + length (endMarker ?S2)) (outBuf ?S2) = after"
    by (simp_all add: dec)
  have d: "delivery ?S2 = delivery S" by (rule ext) (rule delivery_same, simp_all)
  have r: "end_marker_result now ?S2 body = end_marker_result now S body"
    by (simp add: end_marker_result_def)
  show ?thesis
    unfolding e finish_head_effect[OF S2 le] fst_conv snd_conv t d r using q by simp
qed

lemma stdout_loop_complete_fresh:
  assumes q: "inflightOrder s = i # rest" and S: "inflight s i = Some S" "cmd_id S = i"
    "\<not> is_done S" "prom S = None"
    and nb: "\<not> begun S" and ne: "carry \<noteq> []"
    and dec1: "preBuf S @ carry = noise @ beginMarker S @ data"
    and f1: "first_occurrence (preBuf S @ carry) (beginMarker S) (length noise)"
    and dec2: "outBuf S @ strip_crlf data = body @ endMarker S @ after"
    and f2: "first_occurrence (outBuf S @ strip_crlf data) (endMarker S) (length body)"
  shows "stdout_loop now carry s =
           stdout_loop now (strip_crlf after)
             (s\<lparr>inflight := (inflight s)(i := None), inflightOrder := rest,
                inflightCount := inflightCount s - 1,
                trace := trace s @ delivery S (end_marker_result now S body) @ [Erased i]\<rparr>)"
proof -
  let ?S1 = "S\<lparr>preBuf := [], begun := True\<rparr>"
  let ?S2 = "?S1\<lparr>outBuf := outBuf ?S1 @ strip_crlf data\<rparr>"
  have dd: "drop (length noise + length (beginMarker S)) (preBuf S @ carry) = data"
    unfolding dec1 by simp
  have sb: "scan_begin S carry = Inr (?S1, strip_crlf data)"
    using scan_begin_found[OF nb f1] unfolding dd .
  have sf: "str_find (outBuf ?S1 @ strip_crlf data) (endMarker ?S1) = Some (length body)"
    using f2 by (simp add: str_find_iff)
  have e: "stdout_loop now carry s =
             stdout_loop now (fst (finish_head now i ?S2 (length body) s))
               (snd (finish_head now i ?S2 (length body) s))"
    by (rule stdout_loop_end[OF ne q S(1) sb sf])
  have le: "length body + length (endMarker ?S2) \<le> length (outBuf ?S2)"
    using first_occurrence_le[OF f2] by simp
  have S2: "\<not> is_done ?S2" "prom ?S2 = None" "cmd_id ?S2 = i" using S by simp_all
  have t: "take (length body) (outBuf ?S2) = body"
    "drop (length body + length (endMarker ?S2)) (outBuf ?S2) = after"
    by (simp_all add: dec2)
  have d: "delivery ?S2 = delivery S" by (rule ext) (rule delivery_same, simp_all)
  have r: "end_marker_result now ?S2 body = end_marker_result now S body"
    by (simp add: end_marker_result_def)
  show ?thesis
    unfolding e finish_head_effect[OF S2 le] fst_conv snd_conv t d r using q by simp
qed

lemma stdout_loop_noise:
  assumes q: "inflightOrder s = i # rest" and S: "inflight s i = Some S"
    and nb: "\<not> begun S" and ne: "carry \<noteq> []"
    and n: "no_occurrence (preBuf S @ carry) (beginMarker S)"
  shows "stdout_loop now carry s =
           s\<lparr>inflight := (inflight s)(i \<mapsto>
                S\<lparr>preBuf := (if length (preBuf S @ carry) > CAP
                              then drop (length (preBuf S @ carry) - CAP) (preBuf S @ carry)
                              else preBuf S @ carry)\<rparr>)\<rparr>"
proof -
  have f: "str_find (preBuf S @ carry) (beginMarker S) = None"
    using n by (simp add: str_find_None_iff)
  have sb: "scan_begin S carry =
              Inl (S\<lparr>preBuf := (if length (preBuf S @ carry) > CAP
                              then drop (length (preBuf S @ carry) - CAP) (preBuf S @ carry)
                              else preBuf S @ carry)\<rparr>)"
    using nb f by (simp add: scan_begin_def Let_def del: drop_append length_append)
  show ?thesis by (rule stdout_loop_Inl[OF ne q S sb])
qed

lemma stdout_loop_begin_only:
  assumes q: "inflightOrder s = i # rest" and S: "inflight s i = Some S"
    and nb: "\<not> begun S" and ne: "carry \<noteq> []"
    and dec1: "preBuf S @ carry = noise @ beginMarker S @ data"
    and f1: "first_occurrence (preBuf S @ carry) (beginMarker S) (length noise)"
    and n: "no_occurrence (outBuf S @ strip_crlf data) (endMarker S)"
  shows "stdout_loop now carry s =
           s\<lparr>inflight := (inflight s)(i \<mapsto>
                S\<lparr>preBuf := [], begun := True, outBuf := outBuf S @ strip_crlf data\<rparr>)\<rparr>"
proof -
  let ?S1 = "S\<lparr>preBuf := [], begun := True\<rparr>"
  have dd: "drop (length noise + length (beginMarker S)) (preBuf S @ carry) = data"
    unfolding dec1 by simp
  have sb: "scan_begin S carry = Inr (?S1, strip_crlf data)"
    using scan_begin_found[OF nb f1] unfolding dd .
  have sf: "str_find (outBuf ?S1 @ strip_crlf data) (endMarker ?S1) = None"
    using n by (simp add: str_find_None_iff)
  show ?thesis using stdout_loop_no_end[OF ne q S sb sf, of now] by simp
qed

lemma stdout_loop_more:
  assumes q: "inflightOrder s = i # rest" and S: "inflight s i = Some S"
    and b: "begun S" and ne: "carry \<noteq> []"
    and n: "no_occurrence (outBuf S @ carry) (endMarker S)"
  shows "stdout_loop now carry s =
           s\<lparr>inflight := (inflight s)(i \<mapsto> S\<lparr>outBuf := outBuf S @ carry\<rparr>)\<rparr>"
proof -
  have sb: "scan_begin S carry = Inr (S, carry)" using b by (simp add: scan_begin_def)
  have sf: "str_find (outBuf S @ carry) (endMarker S) = None"
    using n by (simp add: str_find_None_iff)
  show ?thesis by (rule stdout_loop_no_end[OF ne q S sb sf])
qed

lemma find_beg1: "str_find chunk1 ''<<<SS_BEG_1>>>'' = Some 5"
  by (simp add: chunk1_def CR_def NL_def)

lemma find_end1:
  "str_find (''A'' @ [NL] @ ''<<<SS_END_1>>>'' @ [NL] @ ''<<<SS_BEG_2>>>B<<<SS_'') ''<<<SS_END_1>>>'' = Some 2"
  by (simp add: NL_def)

lemma find_end2: "str_find (''B<<<SS_'' @ chunk2) ''<<<SS_END_2>>>'' = Some 1"
  by (simp add: chunk2_def)

lemma strip1:
  "strip_crlf ([CR, NL] @ ''A'' @ [NL] @ ''<<<SS_END_1>>>'' @ [NL] @ ''<<<SS_BEG_2>>>B<<<SS_'')
     = ''A'' @ [NL] @ ''<<<SS_END_1>>>'' @ [NL] @ ''<<<SS_BEG_2>>>B<<<SS_''"
  by (simp add: strip_crlf_def CR_def NL_def)

lemma strip2: "strip_crlf ([NL] @ ''<<<SS_BEG_2>>>B<<<SS_'') = ''<<<SS_BEG_2>>>B<<<SS_''"
  by (simp add: strip_crlf_def CR_def NL_def)

text \<open>The records and shells of the examples.\<close>

lemma rec1_fields:
  "preBuf rec1 = []" "outBuf rec1 = []" "beginMarker rec1 = ''<<<SS_BEG_1>>>''"
  "endMarker rec1 = ''<<<SS_END_1>>>''" "cmd_id rec1 = 1" "\<not> is_done rec1" "prom rec1 = None"
  "\<not> begun rec1" "errBuf rec1 = []" "\<not> timedOut rec1" "tStart rec1 = 0" "cb rec1 = None"
  by (simp_all add: rec1_def)

lemma shellA_fields:
  "inflightOrder shellA = [1]" "inflight shellA 1 = Some rec1" "trace shellA = []"
  "inflightCount shellA = 1"
  by (simp_all add: shellA_def shell0_def)

lemma strip_crlf_Nil: "strip_crlf [] = []"
  by (simp add: strip_crlf_def)

lemma split_in_two:
  assumes q: "inflightOrder s = [1]" and m: "inflight s 1 = Some rec1"
  shows "trace (onChunk 2 False split2 (onChunk 1 False split1 s))
     = trace s @ [PromiseSet 1 \<lparr>out = [CR, NL] @ ''A'' @ [NL], err = [], exitCode = 0,
                                success = True, executionTime = 2\<rparr>,
                  Erased 1]"
proof -
  let ?S = "rec1\<lparr>preBuf := [], begun := True, outBuf := []\<rparr>"
  let ?s = "s\<lparr>inflight := (inflight s)(1 \<mapsto> ?S)\<rparr>"
  have q1: "inflightOrder s = 1 # []" using q by simp
  have f: "first_occurrence (preBuf rec1 @ split1) (beginMarker rec1) (length ([]::string))"
    unfolding str_find_iff[symmetric] by (simp add: rec1_fields split1_def)
  have n: "no_occurrence (outBuf rec1 @ strip_crlf []) (endMarker rec1)"
    unfolding str_find_None_iff[symmetric] by (simp add: rec1_fields strip_crlf_Nil)
  have d: "preBuf rec1 @ split1 = [] @ beginMarker rec1 @ []"
    by (simp add: rec1_fields split1_def)
  have ne1: "split1 \<noteq> []" by (simp add: split1_def)
  from stdout_loop_begin_only[OF q1 m rec1_fields(8) ne1 d f n, of 1]
  have one: "stdout_loop 1 split1 s = ?s"
    by (simp add: strip_crlf_Nil rec1_fields)
  have q2: "inflightOrder ?s = 1 # []" using q by simp
  have S: "inflight ?s 1 = Some ?S" "cmd_id ?S = 1" "\<not> is_done ?S" "prom ?S = None" "begun ?S"
    by (simp_all add: rec1_fields)
  have ne: "split2 \<noteq> []" by (simp add: split2_def)
  have d2: "outBuf ?S @ split2 = ([CR, NL] @ ''A'' @ [NL]) @ endMarker ?S @ [CR, NL]"
    by (simp add: rec1_fields split2_def)
  have f2: "first_occurrence (outBuf ?S @ split2) (endMarker ?S) (length ([CR, NL] @ ''A'' @ [NL]))"
    unfolding str_find_iff[symmetric] by (simp add: rec1_fields split2_def CR_def NL_def)
  have sc: "strip_crlf [CR, NL] = []" by (simp add: strip_crlf_def CR_def NL_def)
  have dl: "delivery ?S (end_marker_result 2 ?S ([CR, NL] @ ''A'' @ [NL]))
             = [PromiseSet 1 \<lparr>out = [CR, NL] @ ''A'' @ [NL], err = [], exitCode = 0,
                               success = True, executionTime = 2\<rparr>]"
    by (simp add: delivery_def end_marker_result_def rec1_fields)
  from stdout_loop_complete_begun[OF q2 S ne d2 f2, of 2]
  have "trace (stdout_loop 2 split2 ?s)
     = trace s @ [PromiseSet 1 \<lparr>out = [CR, NL] @ ''A'' @ [NL], err = [], exitCode = 0,
                                success = True, executionTime = 2\<rparr>,
                  Erased 1]"
    unfolding sc dl by (simp add: stdout_loop_stop)
  then show ?thesis unfolding onChunk_stdout one .
qed

lemma split_in_one:
  assumes q: "inflightOrder s = [1]" and m: "inflight s 1 = Some rec1"
  shows "trace (onChunk 1 False (split1 @ split2) s)
     = trace s @ [PromiseSet 1 \<lparr>out = ''A'' @ [NL], err = [], exitCode = 0, success = True,
                                executionTime = 1\<rparr>,
                  Erased 1]"
proof -
  have q1: "inflightOrder s = 1 # []" using q by simp
  have ne: "split1 @ split2 \<noteq> []" by (simp add: split1_def)
  have d1: "preBuf rec1 @ (split1 @ split2) = [] @ beginMarker rec1 @ split2"
    by (simp add: rec1_fields split1_def)
  have f1: "first_occurrence (preBuf rec1 @ (split1 @ split2)) (beginMarker rec1) (length ([]::string))"
    unfolding str_find_iff[symmetric] by (simp add: rec1_fields split1_def)
  have st: "strip_crlf split2 = ''A'' @ [NL] @ ''<<<SS_END_1>>>'' @ [CR, NL]"
    by (simp add: strip_crlf_def split2_def CR_def NL_def)
  have d2: "outBuf rec1 @ strip_crlf split2 = (''A'' @ [NL]) @ endMarker rec1 @ [CR, NL]"
    by (simp add: rec1_fields st)
  have f2: "first_occurrence (outBuf rec1 @ strip_crlf split2) (endMarker rec1) (length (''A'' @ [NL]))"
    unfolding str_find_iff[symmetric] by (simp add: rec1_fields st CR_def NL_def)
  have sc: "strip_crlf [CR, NL] = []" by (simp add: strip_crlf_def CR_def NL_def)
  have dl: "delivery rec1 (end_marker_result 1 rec1 (''A'' @ [NL]))
             = [PromiseSet 1 \<lparr>out = ''A'' @ [NL], err = [], exitCode = 0,
                               success = True, executionTime = 1\<rparr>]"
    by (simp add: delivery_def end_marker_result_def rec1_fields)
  from stdout_loop_complete_fresh[OF q1 m rec1_fields(5,6,7,8) ne d1 f1 d2 f2, of 1]
  show ?thesis unfolding onChunk_stdout sc dl
    by (simp add: stdout_loop_stop)
qed

lemma submitted_a:
  "inflightOrder (snd (submit 0 ''a'' 0 None False shell0)) = [1]"
  "inflight (snd (submit 0 ''a'' 0 None False shell0)) 1 = Some rec1"
  "trace (snd (submit 0 ''a'' 0 None False shell0))
     = [Registered 1, Enqueued 1 (build_pwsh_packet 1 ''a'')]"
proof -
  have a: "\<not> lifecycleGate shell0 \<or> False" "isRunning shell0" by (simp_all add: shell0_def)
  have s: "seq shell0 + 1 = 1" "config_timeoutSeconds shell0 = 30" by (simp_all add: shell0_def)
  note e = submit_accepted[OF a, of 0 "''a''" 0 None, unfolded s new_CmdState_examples(1)]
  show "inflightOrder (snd (submit 0 ''a'' 0 None False shell0)) = [1]"
    unfolding e by (simp add: submit_enqueue_def submit_register_def Let_def shell0_def)
  show "inflight (snd (submit 0 ''a'' 0 None False shell0)) 1 = Some rec1"
    unfolding e by (simp add: submit_enqueue_def submit_register_def Let_def shell0_def)
  show "trace (snd (submit 0 ''a'' 0 None False shell0))
     = [Registered 1, Enqueued 1 (build_pwsh_packet 1 ''a'')]"
    unfolding e by (simp add: submit_enqueue_def submit_register_def Let_def shell0_def)
qed


section \<open>Registration and removal\<close>

lemma fail_one_effect:
  assumes "inflight s k = Some S" "\<not> is_done S" "prom S = None"
  shows "\<exists>S'. fail_one now k s =
           s\<lparr>inflight := (inflight s)(k \<mapsto> S'), trace := trace s @ delivery S (stop_result now S)\<rparr>"
proof -
  let ?S1 = "S\<lparr>errBuf := errBuf S @ stop_message\<rparr>"
  have a: "\<not> is_done ?S1" "prom ?S1 = None" using assms by simp_all
  have d: "delivery ?S1 = delivery S" by (rule ext) (rule delivery_same, simp_all)
  have "snd (completeCmdLocked now False ?S1) = delivery S (stop_result now S)"
    unfolding completeCmdLocked_fresh[OF a] snd_conv d by (simp add: stop_result_def)
  then obtain S' where c: "completeCmdLocked now False ?S1 = (S', delivery S (stop_result now S))"
    by (cases "completeCmdLocked now False ?S1") auto
  have "fail_one now k s =
           s\<lparr>inflight := (inflight s)(k \<mapsto> S'), trace := trace s @ delivery S (stop_result now S)\<rparr>"
    using assms(1,2) by (simp add: fail_one_def Let_def c)
  then show ?thesis by blast
qed

lemma fold_fail_one:
  "distinct ks \<Longrightarrow>
   (\<forall>k \<in> set ks. \<exists>S. inflight s k = Some S \<and> \<not> is_done S \<and> prom S = None) \<Longrightarrow>
     trace (fold (fail_one now) ks s)
       = trace s @ concat (map (\<lambda>k. delivery (the (inflight s k)) (stop_result now (the (inflight s k)))) ks)
     \<and> (\<forall>j. j \<notin> set ks \<longrightarrow> inflight (fold (fail_one now) ks s) j = inflight s j)"
proof (induction ks arbitrary: s)
  case Nil
  then show ?case by simp
next
  case (Cons k ks)
  from Cons.prems obtain S where S: "inflight s k = Some S" "\<not> is_done S" "prom S = None" by auto
  from fail_one_effect[OF S, of now] obtain S' where
    e: "fail_one now k s = s\<lparr>inflight := (inflight s)(k \<mapsto> S'), trace := trace s @ delivery S (stop_result now S)\<rparr>"
    by blast
  let ?s' = "fail_one now k s"
  have nk: "k \<notin> set ks" and dk: "distinct ks" using Cons.prems(1) by simp_all
  have same: "\<And>j. j \<noteq> k \<Longrightarrow> inflight ?s' j = inflight s j" unfolding e by simp
  have pre: "\<forall>j \<in> set ks. \<exists>S. inflight ?s' j = Some S \<and> \<not> is_done S \<and> prom S = None"
  proof
    fix j assume j: "j \<in> set ks"
    with nk have "j \<noteq> k" by auto
    with same[of j] Cons.prems(2) j show "\<exists>S. inflight ?s' j = Some S \<and> \<not> is_done S \<and> prom S = None"
      by auto
  qed
  note ih = Cons.IH[OF dk pre]
  have m: "map (\<lambda>j. delivery (the (inflight ?s' j)) (stop_result now (the (inflight ?s' j)))) ks
         = map (\<lambda>j. delivery (the (inflight s j)) (stop_result now (the (inflight s j)))) ks"
  proof (rule map_cong[OF refl])
    fix j assume "j \<in> set ks"
    with nk have "j \<noteq> k" by auto
    then show "delivery (the (inflight ?s' j)) (stop_result now (the (inflight ?s' j)))
             = delivery (the (inflight s j)) (stop_result now (the (inflight s j)))"
      using same[of j] by simp
  qed
  have t: "trace ?s' = trace s @ delivery S (stop_result now S)" unfolding e by simp
  show ?case
  proof (intro conjI allI impI)
    show "trace (fold (fail_one now) (k # ks) s)
       = trace s @ concat (map (\<lambda>k. delivery (the (inflight s k)) (stop_result now (the (inflight s k)))) (k # ks))"
      using ih[THEN conjunct1] unfolding m t using S(1) by simp
  next
    fix j assume "j \<notin> set (k # ks)"
    then have "j \<noteq> k" "j \<notin> set ks" by simp_all
    with ih[THEN conjunct2] same[of j]
    show "inflight (fold (fail_one now) (k # ks) s) j = inflight s j" by simp
  qed
qed

lemma fold_fail_one_flags:
  "isRunning (fold (fail_one now) ks s) = isRunning s
   \<and> lifecycleGate (fold (fail_one now) ks s) = lifecycleGate s"
proof (induction ks arbitrary: s)
  case Nil
  then show ?case by simp
next
  case (Cons k ks)
  have "isRunning (fail_one now k s) = isRunning s \<and> lifecycleGate (fail_one now k s) = lifecycleGate s"
    by (simp add: fail_one_def Let_def split: option.splits prod.splits)
  with Cons.IH[of "fail_one now k s"] show ?case by simp
qed

lemma fold_fail_one_keeps:
  "inflightOrder (fold (fail_one now) ks s) = inflightOrder s
   \<and> seq (fold (fail_one now) ks s) = seq s"
proof (induction ks arbitrary: s)
  case Nil
  then show ?case by simp
next
  case (Cons k ks)
  have "inflightOrder (fail_one now k s) = inflightOrder s \<and> seq (fail_one now k s) = seq s"
    by (simp add: fail_one_def Let_def split: option.splits prod.splits)
  with Cons.IH[of "fail_one now k s"] show ?case by simp
qed

lemma stop_keeps_tracker:
  assumes "tracker_ok s"
  shows "tracker_ok (stop now ks s) \<and> (isRunning s \<longrightarrow> live_order (stop now ks s) = [])
       \<and> inflightOrder (stop now ks s) = inflightOrder s"
proof (cases "isRunning s")
  case False
  with assms show ?thesis by (simp add: stop_def tracker_ok_def)
next
  case True
  let ?s2 = "s\<lparr>lifecycleGate := True, isRunning := False\<rparr>"
  note k = fold_fail_one_keeps[of now ks ?s2]
  from True k assms show ?thesis
    by (simp add: stop_def Let_def tracker_ok_def live_order_def)
qed

lemma stop_trace:
  assumes "isRunning s" "distinct ks"
    "\<forall>k \<in> set ks. \<exists>S. inflight s k = Some S \<and> \<not> is_done S \<and> prom S = None"
  shows "trace (stop now ks s)
           = trace s @ concat (map (\<lambda>k. delivery (the (inflight s k)) (stop_result now (the (inflight s k)))) ks)
             @ map Erased ks
         \<and> inflight (stop now ks s) = Map.empty"
proof -
  let ?s2 = "s\<lparr>lifecycleGate := True, isRunning := False\<rparr>"
  have p: "\<forall>k \<in> set ks. \<exists>S. inflight ?s2 k = Some S \<and> \<not> is_done S \<and> prom S = None"
    using assms(3) by simp
  from fold_fail_one[OF assms(2) p, of now, THEN conjunct1]
  show ?thesis using assms(1) by (simp add: stop_def Let_def)
qed

text \<open>
  When \<open>stop\<close> visits the keys of the map, each once, every command in the map has its
  promise resolved, in the order of the visit, and is erased.
\<close>

lemma resolved_ids_concat_delivery:
  "resolved_ids (concat (map (\<lambda>k. delivery (f k) (g k)) ks)) = map (\<lambda>k. cmd_id (f k)) ks"
  by (induction ks) (simp_all add: resolved_ids_append resolved_ids_delivery)

lemma stop_enumerated:
  assumes e: "enumerates ks s" and r: "isRunning s"
    and f: "\<forall>k S. inflight s k = Some S \<longrightarrow> cmd_id S = k \<and> \<not> is_done S \<and> prom S = None"
  shows "resolved_ids (trace (stop now ks s)) = resolved_ids (trace s) @ ks
       \<and> (\<forall>k. inflight s k \<noteq> None \<longrightarrow> Erased k \<in> set (trace (stop now ks s)))
       \<and> inflight (stop now ks s) = Map.empty"
proof -
  from e have d: "distinct ks" and k: "set ks = dom (inflight s)" by (simp_all add: enumerates_def)
  have p: "\<forall>k \<in> set ks. \<exists>S. inflight s k = Some S \<and> \<not> is_done S \<and> prom S = None"
    using k f by (auto simp: dom_def)
  note st = stop_trace[OF r d p, of now]
  have m: "map (\<lambda>k. cmd_id (the (inflight s k))) ks = ks"
  proof (rule map_idI)
    fix x assume "x \<in> set ks"
    with k obtain S where "inflight s x = Some S" by (auto simp: dom_def)
    with f show "cmd_id (the (inflight s x)) = x" by auto
  qed
  have a: "resolved_ids (trace (stop now ks s)) = resolved_ids (trace s) @ ks"
  proof -
    have "resolved_ids (map Erased ks) = []" by (induction ks) simp_all
    then show ?thesis
      unfolding st[THEN conjunct1]
      by (simp add: resolved_ids_append resolved_ids_concat_delivery m)
  qed
  have b: "\<forall>k. inflight s k \<noteq> None \<longrightarrow> Erased k \<in> set (trace (stop now ks s))"
  proof (intro allI impI)
    fix j assume "inflight s j \<noteq> None"
    then have "j \<in> set ks" using k by (auto simp: dom_def)
    then show "Erased j \<in> set (trace (stop now ks s))"
      unfolding st[THEN conjunct1] by simp
  qed
  from a b st show ?thesis by blast
qed

lemma timeoutOne_order:
  assumes "inflight s i = Some S" "prom S = None"
  shows "timeoutOne_locked i s =
           (Some (S\<lparr>timedOut := True\<rparr>),
            s\<lparr>inflight := (inflight s)(i := None),
              inflightOrder := drop_from_order i (inflightOrder s),
              trace := trace s @ [Erased i]\<rparr>)
         \<and> trace (timeoutOne i s) = trace s @ [Erased i] @ delivery S (timeout_result S)"
proof -
  let ?st = "S\<lparr>timedOut := True\<rparr>"
  have l: "timeoutOne_locked i s =
           (Some ?st,
            s\<lparr>inflight := (inflight s)(i := None),
              inflightOrder := drop_from_order i (inflightOrder s),
              trace := trace s @ [Erased i]\<rparr>)"
    using assms by (simp add: timeoutOne_locked_def)
  have p: "prom ?st = None" using assms by simp
  have d: "delivery ?st (timeout_result ?st) = delivery S (timeout_result S)"
    by (simp add: timeout_result_def delivery_same[of ?st S])
  have "trace (timeoutOne i s) = trace s @ [Erased i] @ delivery S (timeout_result S)"
    unfolding timeoutOne_def l using fulfillTimeout_trace[OF p] d
    by (simp add: delivery_def)
  with l show ?thesis by simp
qed

lemma cmd1_fields:
  "cmd_id cmd1 = 1" "prom cmd1 = None" "outBuf cmd1 = ''hi''" "errBuf cmd1 = ''warn''"
  "endMarker cmd1 = ''<<<SS_END_1>>>''" "\<not> is_done cmd1" "\<not> timedOut cmd1" "tStart cmd1 = 5"
  "cb cmd1 = Some (Callback True)"
  by (simp_all add: cmd1_def)

lemma shell1_fields:
  "isRunning shell1" "\<not> lifecycleGate shell1" "inflight shell1 1 = Some cmd1" "trace shell1 = []"
  "inflightOrder shell1 = [1]"
  by (simp_all add: shell1_def shell0_def)

text \<open>
  C3 (amended). An accepted \<open>submit\<close> first registers the record in the in-flight map and
  the FIFO, the writer queue being still as before, and only then enqueues the packet.
  On the end-marker path and on the stop path the promise is resolved (and the
  callback called) while the record is in the map, and the record is removed from the
  map afterwards. On the deadline-timeout path the order is the other way round: under
  the state lock the record is moved out of the map and erased from map and FIFO, and
  its promise is resolved after that.
\<close>

theorem registration_and_removal_order:
  "((\<not> lifecycleGate s \<or> bypass) \<and> isRunning s \<and> inflight s (seq s + 1) = None \<longrightarrow>
      inflight (submit_register (seq s + 1)
                  (new_CmdState now (seq s + 1) t c (config_timeoutSeconds s))
                  (s\<lparr>seq := seq s + 1\<rparr>)) (seq s + 1)
        = Some (new_CmdState now (seq s + 1) t c (config_timeoutSeconds s))
      \<and> seq s + 1 \<in> set (inflightOrder (submit_register (seq s + 1)
                  (new_CmdState now (seq s + 1) t c (config_timeoutSeconds s))
                  (s\<lparr>seq := seq s + 1\<rparr>)))
      \<and> writeQueue (submit_register (seq s + 1)
                  (new_CmdState now (seq s + 1) t c (config_timeoutSeconds s))
                  (s\<lparr>seq := seq s + 1\<rparr>)) = writeQueue s
      \<and> snd (submit now cmd t c bypass s)
          = submit_enqueue (seq s + 1) cmd
              (submit_count
                (submit_register (seq s + 1)
                  (new_CmdState now (seq s + 1) t c (config_timeoutSeconds s))
                  (s\<lparr>seq := seq s + 1\<rparr>)))
      \<and> trace (snd (submit now cmd t c bypass s))
          = trace s @ [Registered (seq s + 1),
                       Enqueued (seq s + 1) (build_pwsh_packet (seq s + 1) cmd)])
   \<and> (\<not> is_done S \<and> prom S = None \<and> cmd_id S = i
        \<and> mpos + length (endMarker S) \<le> length (outBuf S) \<longrightarrow>
        trace (snd (finish_head now i S mpos s))
          = trace s @ delivery S (end_marker_result now S (take mpos (outBuf S))) @ [Erased i]
        \<and> inflight (snd (finish_head now i S mpos s)) i = None)
   \<and> (isRunning s \<and> distinct ks
        \<and> (\<forall>k \<in> set ks. \<exists>S. inflight s k = Some S \<and> \<not> is_done S \<and> prom S = None) \<longrightarrow>
        trace (stop now ks s)
          = trace s
            @ concat (map (\<lambda>k. delivery (the (inflight s k))
                                  (stop_result now (the (inflight s k)))) ks)
            @ map Erased ks
        \<and> inflight (stop now ks s) = Map.empty)
   \<and> (inflight s i = Some S \<and> prom S = None \<longrightarrow>
        timeoutOne_locked i s =
          (Some (S\<lparr>timedOut := True\<rparr>),
           s\<lparr>inflight := (inflight s)(i := None),
             inflightOrder := drop_from_order i (inflightOrder s),
             trace := trace s @ [Erased i]\<rparr>)
        \<and> trace (timeoutOne i s) = trace s @ [Erased i] @ delivery S (timeout_result S))"
proof (intro conjI impI)
  let ?i = "seq s + 1"
  let ?S = "new_CmdState now ?i t c (config_timeoutSeconds s)"
  let ?r = "submit_register ?i ?S (s\<lparr>seq := ?i\<rparr>)"
  assume h: "(\<not> lifecycleGate s \<or> bypass) \<and> isRunning s \<and> inflight s (seq s + 1) = None"
  then have g: "\<not> lifecycleGate s \<or> bypass" and r: "isRunning s" and f: "inflight s ?i = None"
    by blast+
  note e = submit_accepted[OF g r, of now cmd t c]
  show "inflight ?r ?i = Some ?S" using f by (simp add: submit_register_def)
  show "?i \<in> set (inflightOrder ?r)" by (simp add: submit_register_def)
  show "writeQueue ?r = writeQueue s" by (simp add: submit_register_def)
  show "snd (submit now cmd t c bypass s) = submit_enqueue ?i cmd (submit_count ?r)"
    unfolding e by simp
  show "trace (snd (submit now cmd t c bypass s))
          = trace s @ [Registered ?i, Enqueued ?i (build_pwsh_packet ?i cmd)]"
    unfolding e by (simp add: submit_enqueue_def submit_register_def Let_def)
next
  assume h: "\<not> is_done S \<and> prom S = None \<and> cmd_id S = i
        \<and> mpos + length (endMarker S) \<le> length (outBuf S)"
  then have a: "\<not> is_done S" "prom S = None" "cmd_id S = i"
    "mpos + length (endMarker S) \<le> length (outBuf S)" by blast+
  note fh = finish_head_effect[OF a, of now s]
  show "trace (snd (finish_head now i S mpos s))
          = trace s @ delivery S (end_marker_result now S (take mpos (outBuf S))) @ [Erased i]"
    unfolding fh by simp
  show "inflight (snd (finish_head now i S mpos s)) i = None"
    unfolding fh by simp
next
  assume h: "isRunning s \<and> distinct ks
        \<and> (\<forall>k \<in> set ks. \<exists>S. inflight s k = Some S \<and> \<not> is_done S \<and> prom S = None)"
  then have a: "isRunning s" "distinct ks"
    "\<forall>k \<in> set ks. \<exists>S. inflight s k = Some S \<and> \<not> is_done S \<and> prom S = None" by blast+
  note st = stop_trace[OF a, of now]
  show "trace (stop now ks s)
          = trace s
            @ concat (map (\<lambda>k. delivery (the (inflight s k))
                                  (stop_result now (the (inflight s k)))) ks)
            @ map Erased ks"
    using st by simp
  show "inflight (stop now ks s) = Map.empty" using st by simp
next
  assume h: "inflight s i = Some S \<and> prom S = None"
  then have a: "inflight s i = Some S" "prom S = None" by blast+
  note to = timeoutOne_order[OF a]
  show "timeoutOne_locked i s =
          (Some (S\<lparr>timedOut := True\<rparr>),
           s\<lparr>inflight := (inflight s)(i := None),
             inflightOrder := drop_from_order i (inflightOrder s),
             trace := trace s @ [Erased i]\<rparr>)"
    using to by simp
  show "trace (timeoutOne i s) = trace s @ [Erased i] @ delivery S (timeout_result S)"
    using to by simp
qed

theorem registration_and_removal_order_witness:
  "trace (snd (submit 0 ''ls'' 0 None False shell0))
     = [Registered 1, Enqueued 1 (build_pwsh_packet 1 ''ls'')]
   \<and> trace (snd (finish_head 9 1 (cmd1\<lparr>outBuf := ''hi<<<SS_END_1>>>''\<rparr>) 2 shell1))
     = [PromiseSet 1 \<lparr>out = ''hi'', err = ''warn'', exitCode = 0, success = True,
                      executionTime = 4\<rparr>,
        CallbackCalled 1 \<lparr>out = ''hi'', err = ''warn'', exitCode = 0, success = True,
                          executionTime = 4\<rparr>,
        Erased 1]
   \<and> trace (stop 9 [1] shell1)
     = [PromiseSet 1 \<lparr>out = ''hi'', err = ''warn'' @ stop_message, exitCode = - 1,
                      success = False, executionTime = 4\<rparr>,
        CallbackCalled 1 \<lparr>out = ''hi'', err = ''warn'' @ stop_message, exitCode = - 1,
                          success = False, executionTime = 4\<rparr>,
        Erased 1]
   \<and> trace (timeoutOne 1 shell1)
     = [Erased 1,
        PromiseSet 1 \<lparr>out = [], err = ''warn'', exitCode = - 1, success = False,
                      executionTime = 0\<rparr>,
        CallbackCalled 1 \<lparr>out = [], err = ''warn'', exitCode = - 1, success = False,
                          executionTime = 0\<rparr>]"
proof -
  have h1: "(\<not> lifecycleGate shell0 \<or> False) \<and> isRunning shell0
            \<and> inflight shell0 (seq shell0 + 1) = None"
    by (simp add: shell0_def)
  have z: "seq shell0 + 1 = 1" "trace shell0 = []" by (simp_all add: shell0_def)
  from registration_and_removal_order
      [where s = shell0 and bypass = False and now = 0 and t = 0 and c = None and cmd = "''ls''",
       THEN conjunct1, rule_format, OF h1,
       THEN conjunct2, THEN conjunct2, THEN conjunct2, THEN conjunct2]
  have c1: "trace (snd (submit 0 ''ls'' 0 None False shell0))
     = [Registered 1, Enqueued 1 (build_pwsh_packet 1 ''ls'')]"
    by (simp add: z)

  let ?S = "cmd1\<lparr>outBuf := ''hi<<<SS_END_1>>>''\<rparr>"
  have h2: "\<not> is_done ?S \<and> prom ?S = None \<and> cmd_id ?S = 1
        \<and> 2 + length (endMarker ?S) \<le> length (outBuf ?S)"
    by (simp add: cmd1_fields)
  have d2: "delivery ?S (end_marker_result 9 ?S (take 2 (outBuf ?S)))
     = [PromiseSet 1 \<lparr>out = ''hi'', err = ''warn'', exitCode = 0, success = True,
                      executionTime = 4\<rparr>,
        CallbackCalled 1 \<lparr>out = ''hi'', err = ''warn'', exitCode = 0, success = True,
                          executionTime = 4\<rparr>]"
    by (simp add: delivery_def end_marker_result_def cmd1_fields)
  from registration_and_removal_order
      [where S = ?S and i = 1 and mpos = 2 and now = 9 and s = shell1,
       THEN conjunct2, THEN conjunct1, rule_format, OF h2]
  have c2: "trace (snd (finish_head 9 1 ?S 2 shell1))
     = [PromiseSet 1 \<lparr>out = ''hi'', err = ''warn'', exitCode = 0, success = True,
                      executionTime = 4\<rparr>,
        CallbackCalled 1 \<lparr>out = ''hi'', err = ''warn'', exitCode = 0, success = True,
                          executionTime = 4\<rparr>,
        Erased 1]"
    unfolding d2 by (simp add: shell1_fields)

  have h3: "isRunning shell1 \<and> distinct [1::u64]
        \<and> (\<forall>k \<in> set [1]. \<exists>S. inflight shell1 k = Some S \<and> \<not> is_done S \<and> prom S = None)"
    by (simp add: shell1_fields cmd1_fields)
  have d3: "delivery cmd1 (stop_result 9 cmd1)
     = [PromiseSet 1 \<lparr>out = ''hi'', err = ''warn'' @ stop_message, exitCode = - 1,
                      success = False, executionTime = 4\<rparr>,
        CallbackCalled 1 \<lparr>out = ''hi'', err = ''warn'' @ stop_message, exitCode = - 1,
                          success = False, executionTime = 4\<rparr>]"
    by (simp add: delivery_def stop_result_def cmd1_fields)
  from registration_and_removal_order
      [where s = shell1 and ks = "[1]" and now = 9,
       THEN conjunct2, THEN conjunct2, THEN conjunct1, rule_format, OF h3]
  have c3: "trace (stop 9 [1] shell1)
     = [PromiseSet 1 \<lparr>out = ''hi'', err = ''warn'' @ stop_message, exitCode = - 1,
                      success = False, executionTime = 4\<rparr>,
        CallbackCalled 1 \<lparr>out = ''hi'', err = ''warn'' @ stop_message, exitCode = - 1,
                          success = False, executionTime = 4\<rparr>,
        Erased 1]"
    by (simp add: shell1_fields d3)

  have h4: "inflight shell1 1 = Some cmd1 \<and> prom cmd1 = None"
    by (simp add: shell1_fields cmd1_fields)
  have d4: "delivery cmd1 (timeout_result cmd1)
     = [PromiseSet 1 \<lparr>out = [], err = ''warn'', exitCode = - 1, success = False,
                      executionTime = 0\<rparr>,
        CallbackCalled 1 \<lparr>out = [], err = ''warn'', exitCode = - 1, success = False,
                          executionTime = 0\<rparr>]"
    by (simp add: delivery_def timeout_result_def cmd1_fields)
  from registration_and_removal_order
      [where s = shell1 and i = 1 and S = cmd1,
       THEN conjunct2, THEN conjunct2, THEN conjunct2, rule_format, OF h4]
  have c4: "trace (timeoutOne 1 shell1)
     = [Erased 1,
        PromiseSet 1 \<lparr>out = [], err = ''warn'', exitCode = - 1, success = False,
                      executionTime = 0\<rparr>,
        CallbackCalled 1 \<lparr>out = [], err = ''warn'', exitCode = - 1, success = False,
                          executionTime = 0\<rparr>]"
    by (simp add: shell1_fields d4)
  from c1 c2 c3 c4 show ?thesis by blast
qed

theorem timeout_removal_counterexample:
  "inflight shell1 1 = Some cmd1 \<and> prom cmd1 = None
   \<and> inflight (snd (timeoutOne_locked 1 shell1)) 1 = None
   \<and> resolved_ids (trace (snd (timeoutOne_locked 1 shell1))) = []
   \<and> trace (timeoutOne 1 shell1)
     = [Erased 1,
        PromiseSet 1 \<lparr>out = [], err = ''warn'', exitCode = - 1, success = False,
                      executionTime = 0\<rparr>,
        CallbackCalled 1 \<lparr>out = [], err = ''warn'', exitCode = - 1, success = False,
                          executionTime = 0\<rparr>]
   \<and> erased_unresolved 1 (trace (timeoutOne 1 shell1))"
proof -
  have a: "inflight shell1 1 = Some cmd1" "prom cmd1 = None"
    by (simp_all add: shell1_fields cmd1_fields)
  note to = timeoutOne_order[OF a]
  have d: "delivery cmd1 (timeout_result cmd1)
     = [PromiseSet 1 \<lparr>out = [], err = ''warn'', exitCode = - 1, success = False,
                      executionTime = 0\<rparr>,
        CallbackCalled 1 \<lparr>out = [], err = ''warn'', exitCode = - 1, success = False,
                          executionTime = 0\<rparr>]"
    by (simp add: delivery_def timeout_result_def cmd1_fields)
  have t: "trace (timeoutOne 1 shell1)
     = [Erased 1,
        PromiseSet 1 \<lparr>out = [], err = ''warn'', exitCode = - 1, success = False,
                      executionTime = 0\<rparr>,
        CallbackCalled 1 \<lparr>out = [], err = ''warn'', exitCode = - 1, success = False,
                          executionTime = 0\<rparr>]"
    using to[THEN conjunct2] by (simp add: d shell1_fields)
  have l: "inflight (snd (timeoutOne_locked 1 shell1)) 1 = None"
    "resolved_ids (trace (snd (timeoutOne_locked 1 shell1))) = []"
    unfolding to[THEN conjunct1] by (simp_all add: shell1_fields)
  have e: "erased_unresolved 1 (trace (timeoutOne 1 shell1))" unfolding t by simp
  from a t l e show ?thesis by blast
qed

section \<open>Order and framing of stdout\<close>

text \<open>
  What the stdout demultiplexer does. In a run of submits and stdout chunks (no deadline
  expiry) from a state the tracker keeps, and as long as fewer than \<open>2 ^ 64\<close>
  identifiers are handed out, the identifiers whose promises have been resolved, in
  resolution order, followed by those still in flight, are exactly the identifiers in
  submit order: promises resolve in submit order. \<open>stop\<close> leaves such a state, with
  nothing in flight and the FIFO as it was, so this holds of a restarted shell too. For
  the command at the FIFO head, a chunk is framed as follows. Before the begin marker
  has been seen, a chunk without it is only kept in the pre-buffer (its last \<open>CAP\<close>
  bytes). When the begin marker is found, the bytes before it are dropped together with
  one optional CR and LF that follow it in the same buffer. Once begun, a chunk without
  the end marker is appended to the out-buffer. When the end marker is found, the
  result's stdout is exactly the out-buffer up to the first end marker, the command
  leaves the map and the FIFO, and the bytes after the end marker, less one optional CR
  and LF present in the buffer, are processed as the chunk of the next command at the
  FIFO head. An empty chunk or an empty FIFO changes nothing, and an identifier at the
  FIFO head that the map does not have is dropped from the FIFO.
\<close>

theorem stdout_demux_order_and_framing:
  "(tracker_ok s \<and> isRunning s \<and> \<not> lifecycleGate s
      \<and> unat (seq s) + count_submits acts < 2 ^ 64 \<longrightarrow>
      resolved_ids (trace (run_actions acts s)) @ live_order (run_actions acts s)
        = resolved_ids (trace s) @ live_order s @ fresh_ids (seq s) (count_submits acts))
   \<and> (inflightOrder s = i # rest \<and> inflight s i = Some S \<and> carry \<noteq> [] \<and> \<not> begun S
        \<and> no_occurrence (preBuf S @ carry) (beginMarker S) \<longrightarrow>
        onChunk now False carry s =
          s\<lparr>inflight := (inflight s)(i \<mapsto>
               S\<lparr>preBuf := (if length (preBuf S @ carry) > CAP
                             then drop (length (preBuf S @ carry) - CAP) (preBuf S @ carry)
                             else preBuf S @ carry)\<rparr>)\<rparr>)
   \<and> (inflightOrder s = i # rest \<and> inflight s i = Some S \<and> carry \<noteq> [] \<and> \<not> begun S
        \<and> preBuf S @ carry = noise @ beginMarker S @ data
        \<and> first_occurrence (preBuf S @ carry) (beginMarker S) (length noise)
        \<and> no_occurrence (outBuf S @ strip_crlf data) (endMarker S) \<longrightarrow>
        onChunk now False carry s =
          s\<lparr>inflight := (inflight s)(i \<mapsto>
               S\<lparr>preBuf := [], begun := True, outBuf := outBuf S @ strip_crlf data\<rparr>)\<rparr>)
   \<and> (inflightOrder s = i # rest \<and> inflight s i = Some S \<and> carry \<noteq> [] \<and> begun S
        \<and> no_occurrence (outBuf S @ carry) (endMarker S) \<longrightarrow>
        onChunk now False carry s =
          s\<lparr>inflight := (inflight s)(i \<mapsto> S\<lparr>outBuf := outBuf S @ carry\<rparr>)\<rparr>)
   \<and> (inflightOrder s = i # rest \<and> inflight s i = Some S \<and> cmd_id S = i
        \<and> \<not> is_done S \<and> prom S = None \<and> carry \<noteq> [] \<and> \<not> begun S
        \<and> preBuf S @ carry = noise @ beginMarker S @ data
        \<and> first_occurrence (preBuf S @ carry) (beginMarker S) (length noise)
        \<and> outBuf S @ strip_crlf data = body @ endMarker S @ after
        \<and> first_occurrence (outBuf S @ strip_crlf data) (endMarker S) (length body) \<longrightarrow>
        onChunk now False carry s =
          onChunk now False (strip_crlf after)
            (s\<lparr>inflight := (inflight s)(i := None), inflightOrder := rest,
               inflightCount := inflightCount s - 1,
               trace := trace s @ delivery S (end_marker_result now S body) @ [Erased i]\<rparr>))
   \<and> (inflightOrder s = i # rest \<and> inflight s i = Some S \<and> cmd_id S = i
        \<and> \<not> is_done S \<and> prom S = None \<and> carry \<noteq> [] \<and> begun S
        \<and> outBuf S @ carry = body @ endMarker S @ after
        \<and> first_occurrence (outBuf S @ carry) (endMarker S) (length body) \<longrightarrow>
        onChunk now False carry s =
          onChunk now False (strip_crlf after)
            (s\<lparr>inflight := (inflight s)(i := None), inflightOrder := rest,
               inflightCount := inflightCount s - 1,
               trace := trace s @ delivery S (end_marker_result now S body) @ [Erased i]\<rparr>))
   \<and> (carry = [] \<or> inflightOrder s = [] \<longrightarrow> onChunk now False carry s = s)
   \<and> (inflightOrder s = i # rest \<and> inflight s i = None \<and> carry \<noteq> [] \<longrightarrow>
        onChunk now False carry s = onChunk now False carry (s\<lparr>inflightOrder := rest\<rparr>))
   \<and> (tracker_ok s \<longrightarrow>
        tracker_ok (stop now ks s) \<and> inflightOrder (stop now ks s) = inflightOrder s
        \<and> (isRunning s \<longrightarrow> live_order (stop now ks s) = []))"
proof (intro conjI impI)
  assume h: "tracker_ok s \<and> isRunning s \<and> \<not> lifecycleGate s
      \<and> unat (seq s) + count_submits acts < 2 ^ 64"
  then have "tracker_ok s" "isRunning s" "\<not> lifecycleGate s"
    "unat (seq s) + count_submits acts < 2 ^ 64" by simp_all
  from run_actions_order[OF this]
  show "resolved_ids (trace (run_actions acts s)) @ live_order (run_actions acts s)
        = resolved_ids (trace s) @ live_order s @ fresh_ids (seq s) (count_submits acts)"
    by simp
next
  assume h: "inflightOrder s = i # rest \<and> inflight s i = Some S \<and> carry \<noteq> [] \<and> \<not> begun S
        \<and> no_occurrence (preBuf S @ carry) (beginMarker S)"
  then have "inflightOrder s = i # rest" "inflight s i = Some S" "\<not> begun S" "carry \<noteq> []"
    "no_occurrence (preBuf S @ carry) (beginMarker S)" by blast+
  then show "onChunk now False carry s =
          s\<lparr>inflight := (inflight s)(i \<mapsto>
               S\<lparr>preBuf := (if length (preBuf S @ carry) > CAP
                             then drop (length (preBuf S @ carry) - CAP) (preBuf S @ carry)
                             else preBuf S @ carry)\<rparr>)\<rparr>"
    unfolding onChunk_stdout by (rule stdout_loop_noise)
next
  assume h: "inflightOrder s = i # rest \<and> inflight s i = Some S \<and> carry \<noteq> [] \<and> \<not> begun S
        \<and> preBuf S @ carry = noise @ beginMarker S @ data
        \<and> first_occurrence (preBuf S @ carry) (beginMarker S) (length noise)
        \<and> no_occurrence (outBuf S @ strip_crlf data) (endMarker S)"
  then have "inflightOrder s = i # rest" "inflight s i = Some S" "\<not> begun S" "carry \<noteq> []"
    "preBuf S @ carry = noise @ beginMarker S @ data"
    "first_occurrence (preBuf S @ carry) (beginMarker S) (length noise)"
    "no_occurrence (outBuf S @ strip_crlf data) (endMarker S)" by blast+
  then show "onChunk now False carry s =
          s\<lparr>inflight := (inflight s)(i \<mapsto>
               S\<lparr>preBuf := [], begun := True, outBuf := outBuf S @ strip_crlf data\<rparr>)\<rparr>"
    unfolding onChunk_stdout by (rule stdout_loop_begin_only)
next
  assume h: "inflightOrder s = i # rest \<and> inflight s i = Some S \<and> carry \<noteq> [] \<and> begun S
        \<and> no_occurrence (outBuf S @ carry) (endMarker S)"
  then have "inflightOrder s = i # rest" "inflight s i = Some S" "begun S" "carry \<noteq> []"
    "no_occurrence (outBuf S @ carry) (endMarker S)" by blast+
  then show "onChunk now False carry s =
          s\<lparr>inflight := (inflight s)(i \<mapsto> S\<lparr>outBuf := outBuf S @ carry\<rparr>)\<rparr>"
    unfolding onChunk_stdout by (rule stdout_loop_more)
next
  assume h: "inflightOrder s = i # rest \<and> inflight s i = Some S \<and> cmd_id S = i
        \<and> \<not> is_done S \<and> prom S = None \<and> carry \<noteq> [] \<and> \<not> begun S
        \<and> preBuf S @ carry = noise @ beginMarker S @ data
        \<and> first_occurrence (preBuf S @ carry) (beginMarker S) (length noise)
        \<and> outBuf S @ strip_crlf data = body @ endMarker S @ after
        \<and> first_occurrence (outBuf S @ strip_crlf data) (endMarker S) (length body)"
  then have "inflightOrder s = i # rest" "inflight s i = Some S" "cmd_id S = i"
    "\<not> is_done S" "prom S = None" "\<not> begun S" "carry \<noteq> []"
    "preBuf S @ carry = noise @ beginMarker S @ data"
    "first_occurrence (preBuf S @ carry) (beginMarker S) (length noise)"
    "outBuf S @ strip_crlf data = body @ endMarker S @ after"
    "first_occurrence (outBuf S @ strip_crlf data) (endMarker S) (length body)"
    by blast+
  then show "onChunk now False carry s =
          onChunk now False (strip_crlf after)
            (s\<lparr>inflight := (inflight s)(i := None), inflightOrder := rest,
               inflightCount := inflightCount s - 1,
               trace := trace s @ delivery S (end_marker_result now S body) @ [Erased i]\<rparr>)"
    unfolding onChunk_stdout by (rule stdout_loop_complete_fresh)
next
  assume h: "inflightOrder s = i # rest \<and> inflight s i = Some S \<and> cmd_id S = i
        \<and> \<not> is_done S \<and> prom S = None \<and> carry \<noteq> [] \<and> begun S
        \<and> outBuf S @ carry = body @ endMarker S @ after
        \<and> first_occurrence (outBuf S @ carry) (endMarker S) (length body)"
  then have "inflightOrder s = i # rest" "inflight s i = Some S" "cmd_id S = i"
    "\<not> is_done S" "prom S = None" "begun S" "carry \<noteq> []"
    "outBuf S @ carry = body @ endMarker S @ after"
    "first_occurrence (outBuf S @ carry) (endMarker S) (length body)"
    by blast+
  then show "onChunk now False carry s =
          onChunk now False (strip_crlf after)
            (s\<lparr>inflight := (inflight s)(i := None), inflightOrder := rest,
               inflightCount := inflightCount s - 1,
               trace := trace s @ delivery S (end_marker_result now S body) @ [Erased i]\<rparr>)"
    unfolding onChunk_stdout by (rule stdout_loop_complete_begun)
next
  assume "carry = [] \<or> inflightOrder s = []"
  then show "onChunk now False carry s = s"
    unfolding onChunk_stdout by (rule stdout_loop_stop)
next
  assume "inflightOrder s = i # rest \<and> inflight s i = None \<and> carry \<noteq> []"
  then have "carry \<noteq> []" "inflightOrder s = i # rest" "inflight s i = None" by blast+
  then show "onChunk now False carry s = onChunk now False carry (s\<lparr>inflightOrder := rest\<rparr>)"
    unfolding onChunk_stdout by (rule stdout_loop_missing)
next
  assume "tracker_ok s"
  from stop_keeps_tracker[OF this, of now ks]
  show "tracker_ok (stop now ks s)" by blast
next
  assume "tracker_ok s"
  from stop_keeps_tracker[OF this, of now ks]
  show "inflightOrder (stop now ks s) = inflightOrder s" by blast
next
  assume "tracker_ok s" and "isRunning s"
  with stop_keeps_tracker[of s now ks]
  show "live_order (stop now ks s) = []" by blast
qed

theorem stdout_demux_order_and_framing_witness:
  "resolved_ids (trace (run_actions acts0 shell0)) @ live_order (run_actions acts0 shell0) = [1, 2]
   \<and> onChunk 1 False ''noi'' shellA
       = shellA\<lparr>inflight := (inflight shellA)(1 \<mapsto> rec1\<lparr>preBuf := ''noi''\<rparr>)\<rparr>
   \<and> onChunk 1 False split1 shellA
       = shellA\<lparr>inflight := (inflight shellA)(1 \<mapsto>
                  rec1\<lparr>preBuf := [], begun := True, outBuf := []\<rparr>)\<rparr>
   \<and> onChunk 3 False ''EN'' shell3
       = shell3\<lparr>inflight := (inflight shell3)(2 \<mapsto>
                  rec2\<lparr>begun := True, outBuf := ''B<<<SS_EN''\<rparr>)\<rparr>
   \<and> onChunk 2 False chunk1 shell2 =
       onChunk 2 False ''<<<SS_BEG_2>>>B<<<SS_''
         (shell2\<lparr>inflight := (inflight shell2)(1 := None), inflightOrder := [2],
                 inflightCount := 1,
                 trace := [PromiseSet 1 \<lparr>out = ''A'' @ [NL], err = [], exitCode = 0,
                                         success = True, executionTime = 2\<rparr>,
                           Erased 1]\<rparr>)
   \<and> onChunk 3 False chunk2 shell3 =
       shell3\<lparr>inflight := (inflight shell3)(2 := None), inflightOrder := [],
              inflightCount := 0,
              trace := [PromiseSet 2 \<lparr>out = ''B'', err = [], exitCode = 0, success = True,
                                      executionTime = 2\<rparr>,
                        CallbackCalled 2 \<lparr>out = ''B'', err = [], exitCode = 0, success = True,
                                          executionTime = 2\<rparr>,
                        Erased 2]\<rparr>
   \<and> onChunk 1 False ''x'' shell0 = shell0
   \<and> onChunk 1 False ''x'' (shell0\<lparr>inflightOrder := [7]\<rparr>) = shell0
   \<and> inflightOrder (stop 5 [1] shell1) = [1]
   \<and> live_order (stop 5 [1] shell1) = []
   \<and> resolved_ids (trace (run_actions [Submit 6 ''b'' 0 None False]
                              ((stop 5 [1] shell1)\<lparr>isRunning := True\<rparr>)))
       @ live_order (run_actions [Submit 6 ''b'' 0 None False]
                       ((stop 5 [1] shell1)\<lparr>isRunning := True\<rparr>))
       = [1, 2]"
proof -
  have a: "tracker_ok shell0 \<and> isRunning shell0 \<and> \<not> lifecycleGate shell0
      \<and> unat (seq shell0) + count_submits acts0 < 2 ^ 64"
    by (simp add: tracker_ok_def shell0_def acts0_def)
  have fr: "fresh_ids (seq shell0) (count_submits acts0) = [1, 2]"
    by (simp add: fresh_ids_def shell0_def acts0_def upt_conv_Cons)
  have z: "resolved_ids (trace shell0) = []" "live_order shell0 = []"
    by (simp_all add: shell0_def live_order_def)
  from stdout_demux_order_and_framing
      [where s = shell0 and acts = acts0, THEN conjunct1, rule_format, OF a]
  have c1: "resolved_ids (trace (run_actions acts0 shell0)) @ live_order (run_actions acts0 shell0) = [1, 2]"
    by (simp only: fr z append_Nil)

  let ?data = "[CR, NL] @ ''A'' @ [NL] @ ''<<<SS_END_1>>>'' @ [NL] @ ''<<<SS_BEG_2>>>B<<<SS_''"
  have v1: "preBuf rec1 = []" "outBuf rec1 = []" "beginMarker rec1 = ''<<<SS_BEG_1>>>''"
    "endMarker rec1 = ''<<<SS_END_1>>>''" "cmd_id rec1 = 1" "\<not> is_done rec1" "prom rec1 = None"
    "\<not> begun rec1" "errBuf rec1 = []" "\<not> timedOut rec1" "tStart rec1 = 0" "cb rec1 = None"
    by (simp_all add: rec1_def)
  have b: "inflightOrder shell2 = 1 # [2] \<and> inflight shell2 1 = Some rec1 \<and> cmd_id rec1 = 1
        \<and> \<not> is_done rec1 \<and> prom rec1 = None \<and> chunk1 \<noteq> [] \<and> \<not> begun rec1
        \<and> preBuf rec1 @ chunk1 = ''noise'' @ beginMarker rec1 @ ?data
        \<and> first_occurrence (preBuf rec1 @ chunk1) (beginMarker rec1) (length ''noise'')
        \<and> outBuf rec1 @ strip_crlf ?data = (''A'' @ [NL]) @ endMarker rec1 @ ([NL] @ ''<<<SS_BEG_2>>>B<<<SS_'')
        \<and> first_occurrence (outBuf rec1 @ strip_crlf ?data) (endMarker rec1) (length (''A'' @ [NL]))"
    unfolding v1 strip1 str_find_iff[symmetric]
    using find_beg1 find_end1 by (simp add: shell2_def shell0_def chunk1_def v1)
  have d1: "delivery rec1 (end_marker_result 2 rec1 (''A'' @ [NL]))
             = [PromiseSet 1 \<lparr>out = ''A'' @ [NL], err = [], exitCode = 0,
                                         success = True, executionTime = 2\<rparr>]"
    by (simp add: delivery_def end_marker_result_def v1)
  from stdout_demux_order_and_framing
      [where s = shell2 and i = 1 and rest = "[2]" and S = rec1 and carry = chunk1
         and noise = "''noise''" and data = ?data and body = "''A'' @ [NL]"
         and after = "[NL] @ ''<<<SS_BEG_2>>>B<<<SS_''" and now = 2,
       THEN conjunct2, THEN conjunct2, THEN conjunct2, THEN conjunct2, THEN conjunct1,
       rule_format, OF b]
  have c2: "onChunk 2 False chunk1 shell2 =
       onChunk 2 False ''<<<SS_BEG_2>>>B<<<SS_''
         (shell2\<lparr>inflight := (inflight shell2)(1 := None), inflightOrder := [2],
                 inflightCount := 1,
                 trace := [PromiseSet 1 \<lparr>out = ''A'' @ [NL], err = [], exitCode = 0,
                                         success = True, executionTime = 2\<rparr>,
                           Erased 1]\<rparr>)"
    unfolding strip2 d1 by (simp add: shell2_def shell0_def)

  let ?S = "rec2\<lparr>begun := True, outBuf := ''B<<<SS_''\<rparr>"
  have v2: "outBuf ?S = ''B<<<SS_''" "endMarker ?S = ''<<<SS_END_2>>>''" "cmd_id ?S = 2"
    "\<not> is_done ?S" "prom ?S = None" "begun ?S" "errBuf ?S = []" "\<not> timedOut ?S" "tStart ?S = 1"
    "cb ?S = Some (Callback True)"
    by (simp_all add: rec2_def)
  have c: "inflightOrder shell3 = 2 # [] \<and> inflight shell3 2 = Some ?S \<and> cmd_id ?S = 2
        \<and> \<not> is_done ?S \<and> prom ?S = None \<and> chunk2 \<noteq> [] \<and> begun ?S
        \<and> outBuf ?S @ chunk2 = ''B'' @ endMarker ?S @ []
        \<and> first_occurrence (outBuf ?S @ chunk2) (endMarker ?S) (length ''B'')"
    unfolding v2 str_find_iff[symmetric]
    using find_end2 by (simp add: shell3_def shell0_def chunk2_def v2)
  have d2: "delivery ?S (end_marker_result 3 ?S ''B'')
             = [PromiseSet 2 \<lparr>out = ''B'', err = [], exitCode = 0, success = True,
                                      executionTime = 2\<rparr>,
                        CallbackCalled 2 \<lparr>out = ''B'', err = [], exitCode = 0, success = True,
                                          executionTime = 2\<rparr>]"
    by (simp add: delivery_def end_marker_result_def v2)
  have s0: "strip_crlf [] = []" by (simp add: strip_crlf_def)
  from stdout_demux_order_and_framing
      [where s = shell3 and i = 2 and rest = "[]" and S = ?S and carry = chunk2
         and body = "''B''" and after = "[]" and now = 3,
       THEN conjunct2, THEN conjunct2, THEN conjunct2, THEN conjunct2, THEN conjunct2,
       THEN conjunct1, rule_format, OF c]
  have c3: "onChunk 3 False chunk2 shell3 =
       shell3\<lparr>inflight := (inflight shell3)(2 := None), inflightOrder := [],
              inflightCount := 0,
              trace := [PromiseSet 2 \<lparr>out = ''B'', err = [], exitCode = 0, success = True,
                                      executionTime = 2\<rparr>,
                        CallbackCalled 2 \<lparr>out = ''B'', err = [], exitCode = 0, success = True,
                                          executionTime = 2\<rparr>,
                        Erased 2]\<rparr>"
    unfolding s0 d2 by (simp add: shell3_def shell0_def onChunk_def)

  have hn: "inflightOrder shellA = 1 # [] \<and> inflight shellA 1 = Some rec1 \<and> ''noi'' \<noteq> []
        \<and> \<not> begun rec1 \<and> no_occurrence (preBuf rec1 @ ''noi'') (beginMarker rec1)"
    unfolding str_find_None_iff[symmetric] by (simp add: shellA_fields rec1_fields)
  from stdout_demux_order_and_framing
      [where s = shellA and i = 1 and rest = "[]" and S = rec1 and carry = "''noi''" and now = 1,
       THEN conjunct2, THEN conjunct1, rule_format, OF hn]
  have n1: "onChunk 1 False ''noi'' shellA
       = shellA\<lparr>inflight := (inflight shellA)(1 \<mapsto> rec1\<lparr>preBuf := ''noi''\<rparr>)\<rparr>"
    by (simp add: rec1_fields CAP_def)

  have hb: "inflightOrder shellA = 1 # [] \<and> inflight shellA 1 = Some rec1 \<and> split1 \<noteq> []
        \<and> \<not> begun rec1 \<and> preBuf rec1 @ split1 = [] @ beginMarker rec1 @ []
        \<and> first_occurrence (preBuf rec1 @ split1) (beginMarker rec1) (length ([]::string))
        \<and> no_occurrence (outBuf rec1 @ strip_crlf []) (endMarker rec1)"
    unfolding str_find_None_iff[symmetric] str_find_iff[symmetric]
    by (simp add: shellA_fields rec1_fields split1_def strip_crlf_Nil)
  from stdout_demux_order_and_framing
      [where s = shellA and i = 1 and rest = "[]" and S = rec1 and carry = split1
         and noise = "[]" and data = "[]" and now = 1,
       THEN conjunct2, THEN conjunct2, THEN conjunct1, rule_format, OF hb]
  have n2: "onChunk 1 False split1 shellA
       = shellA\<lparr>inflight := (inflight shellA)(1 \<mapsto>
                  rec1\<lparr>preBuf := [], begun := True, outBuf := []\<rparr>)\<rparr>"
    by (simp add: rec1_fields strip_crlf_Nil)

  have hm: "inflightOrder shell3 = 2 # [] \<and> inflight shell3 2 = Some ?S \<and> ''EN'' \<noteq> []
        \<and> begun ?S \<and> no_occurrence (outBuf ?S @ ''EN'') (endMarker ?S)"
    unfolding str_find_None_iff[symmetric]
    by (simp add: shell3_def shell0_def v2)
  from stdout_demux_order_and_framing
      [where s = shell3 and i = 2 and rest = "[]" and S = ?S and carry = "''EN''" and now = 3,
       THEN conjunct2, THEN conjunct2, THEN conjunct2, THEN conjunct1, rule_format, OF hm]
  have n3: "onChunk 3 False ''EN'' shell3
       = shell3\<lparr>inflight := (inflight shell3)(2 \<mapsto>
                  rec2\<lparr>begun := True, outBuf := ''B<<<SS_EN''\<rparr>)\<rparr>"
    by (simp add: v2)

  have hx: "''x'' = [] \<or> inflightOrder shell0 = []" by (simp add: shell0_def)
  from stdout_demux_order_and_framing
      [where s = shell0 and carry = "''x''" and now = 1,
       THEN conjunct2, THEN conjunct2, THEN conjunct2, THEN conjunct2, THEN conjunct2,
       THEN conjunct2, THEN conjunct1, rule_format, OF hx]
  have b1: "onChunk 1 False ''x'' shell0 = shell0" .
  have hy: "inflightOrder (shell0\<lparr>inflightOrder := [7]\<rparr>) = 7 # []
        \<and> inflight (shell0\<lparr>inflightOrder := [7]\<rparr>) 7 = None \<and> ''x'' \<noteq> []"
    by (simp add: shell0_def)
  have sx: "shell0\<lparr>inflightOrder := [7], inflightOrder := []\<rparr> = shell0" by (simp add: shell0_def)
  from stdout_demux_order_and_framing
      [where s = "shell0\<lparr>inflightOrder := [7]\<rparr>" and i = 7 and rest = "[]" and carry = "''x''"
         and now = 1,
       THEN conjunct2, THEN conjunct2, THEN conjunct2, THEN conjunct2, THEN conjunct2,
       THEN conjunct2, THEN conjunct2, THEN conjunct1, rule_format, OF hy]
  have b2: "onChunk 1 False ''x'' (shell0\<lparr>inflightOrder := [7]\<rparr>) = shell0"
    unfolding sx b1 .

  have ok1: "tracker_ok shell1"
    by (simp add: tracker_ok_def shell1_def shell0_def cmd1_def)
  note sk = stdout_demux_order_and_framing
      [where s = shell1 and now = 5 and ks = "[1]",
       THEN conjunct2, THEN conjunct2, THEN conjunct2, THEN conjunct2, THEN conjunct2,
       THEN conjunct2, THEN conjunct2, THEN conjunct2, rule_format, OF ok1]
  from sk have b3: "inflightOrder (stop 5 [1] shell1) = [1]" by (simp add: shell1_fields)
  from sk have b4: "live_order (stop 5 [1] shell1) = []" by (simp add: shell1_fields)
  let ?r = "(stop 5 [1] shell1)\<lparr>isRunning := True\<rparr>"
  have pre: "\<forall>k \<in> set [1]. \<exists>S. inflight shell1 k = Some S \<and> \<not> is_done S \<and> prom S = None"
    by (simp add: shell1_fields cmd1_fields)
  have tr: "resolved_ids (trace ?r) = [1]"
    using stop_trace[OF shell1_fields(1) _ pre, of 5]
    by (simp add: shell1_fields resolved_ids_append resolved_ids_delivery cmd1_fields)
  have fl: "seq ?r = 1" "\<not> lifecycleGate ?r" "isRunning ?r"
    using fold_fail_one_keeps[of 5 "[1]" "shell1\<lparr>lifecycleGate := True, isRunning := False\<rparr>"]
    by (simp_all add: stop_def Let_def shell1_fields shell1_def shell0_def)
  have lr: "live_order ?r = []" using b4 by (simp add: live_order_def)
  have okr: "tracker_ok ?r" using sk[THEN conjunct1] unfolding tracker_ok_def by simp
  have ar: "tracker_ok ?r \<and> isRunning ?r \<and> \<not> lifecycleGate ?r
      \<and> unat (seq ?r) + count_submits [Submit 6 ''b'' 0 None False] < 2 ^ 64"
    using okr fl by simp
  have fr2: "fresh_ids (seq ?r) (count_submits [Submit 6 ''b'' 0 None False]) = [2]"
    unfolding fl by (simp add: fresh_ids_def)
  from stdout_demux_order_and_framing
      [where s = ?r and acts = "[Submit 6 ''b'' 0 None False]", THEN conjunct1, rule_format, OF ar]
  have b5: "resolved_ids (trace (run_actions [Submit 6 ''b'' 0 None False] ?r))
       @ live_order (run_actions [Submit 6 ''b'' 0 None False] ?r) = [1, 2]"
    by (simp only: fr2 tr lr append_Nil append_Cons)
  from c1 n1 n2 n3 c2 c3 b1 b2 b3 b4 b5 show ?thesis by blast
qed

text \<open>
  C1. The code departs from the claim when the reader cuts the stream right after a
  begin marker. Command 1 is submitted and is alone in flight, and the interpreter
  prints its begin marker, CR LF, the output \<open>A\<close> and a newline, its end marker, CR LF.
  The bytes between the markers, less the CR LF after the begin marker, are \<open>A\<close> and the
  newline, and this is the stdout of the result when the stream arrives in one chunk.
  When it arrives in two chunks, the first ending with the begin marker, the CR and LF
  after the marker are not discarded: the stdout of the result is CR LF \<open>A\<close> newline.
  Both are shown from the shell holding the record as registered, and from the empty
  shell through \<open>submit\<close>.
\<close>

theorem begin_crlf_split_divergence:
  "spec_stdout (split1 @ split2) ''<<<SS_BEG_1>>>'' ''<<<SS_END_1>>>'' = ''A'' @ [NL]
   \<and> trace (onChunk 1 False (split1 @ split2) shellA)
       = [PromiseSet 1 \<lparr>out = ''A'' @ [NL], err = [], exitCode = 0, success = True,
                        executionTime = 1\<rparr>,
          Erased 1]
   \<and> trace (onChunk 2 False split2 (onChunk 1 False split1 shellA))
       = [PromiseSet 1 \<lparr>out = [CR, NL] @ ''A'' @ [NL], err = [], exitCode = 0, success = True,
                        executionTime = 2\<rparr>,
          Erased 1]
   \<and> [CR, NL] @ ''A'' @ [NL] \<noteq> spec_stdout (split1 @ split2) ''<<<SS_BEG_1>>>'' ''<<<SS_END_1>>>''
   \<and> trace (run_actions [Submit 0 ''a'' 0 None False, Stdout 1 (split1 @ split2)] shell0)
       = [Registered 1, Enqueued 1 (build_pwsh_packet 1 ''a''),
          PromiseSet 1 \<lparr>out = ''A'' @ [NL], err = [], exitCode = 0, success = True,
                        executionTime = 1\<rparr>,
          Erased 1]
   \<and> trace (run_actions [Submit 0 ''a'' 0 None False, Stdout 1 split1, Stdout 2 split2] shell0)
       = [Registered 1, Enqueued 1 (build_pwsh_packet 1 ''a''),
          PromiseSet 1 \<lparr>out = [CR, NL] @ ''A'' @ [NL], err = [], exitCode = 0, success = True,
                        executionTime = 2\<rparr>,
          Erased 1]"
proof -
  have sp: "spec_stdout (split1 @ split2) ''<<<SS_BEG_1>>>'' ''<<<SS_END_1>>>'' = ''A'' @ [NL]"
    by (simp add: spec_stdout_def split1_def split2_def strip_crlf_def CR_def NL_def Let_def)
  have ne: "[CR, NL] @ ''A'' @ [NL] \<noteq> ''A'' @ [NL]" by (simp add: CR_def NL_def)
  have a1: "trace (onChunk 1 False (split1 @ split2) shellA)
       = [PromiseSet 1 \<lparr>out = ''A'' @ [NL], err = [], exitCode = 0, success = True,
                        executionTime = 1\<rparr>,
          Erased 1]"
    using split_in_one[OF shellA_fields(1,2)] by (simp add: shellA_fields)
  have a2: "trace (onChunk 2 False split2 (onChunk 1 False split1 shellA))
       = [PromiseSet 1 \<lparr>out = [CR, NL] @ ''A'' @ [NL], err = [], exitCode = 0, success = True,
                        executionTime = 2\<rparr>,
          Erased 1]"
    using split_in_two[OF shellA_fields(1,2)] by (simp add: shellA_fields)
  have b1: "trace (run_actions [Submit 0 ''a'' 0 None False, Stdout 1 (split1 @ split2)] shell0)
       = [Registered 1, Enqueued 1 (build_pwsh_packet 1 ''a''),
          PromiseSet 1 \<lparr>out = ''A'' @ [NL], err = [], exitCode = 0, success = True,
                        executionTime = 1\<rparr>,
          Erased 1]"
    using split_in_one[OF submitted_a(1,2)] by (simp add: run_actions_def submitted_a(3))
  have b2: "trace (run_actions [Submit 0 ''a'' 0 None False, Stdout 1 split1, Stdout 2 split2] shell0)
       = [Registered 1, Enqueued 1 (build_pwsh_packet 1 ''a''),
          PromiseSet 1 \<lparr>out = [CR, NL] @ ''A'' @ [NL], err = [], exitCode = 0, success = True,
                        executionTime = 2\<rparr>,
          Erased 1]"
    using split_in_two[OF submitted_a(1,2)] by (simp add: run_actions_def submitted_a(3))
  from sp a1 a2 ne b1 b2 show ?thesis by simp
qed


section \<open>Results delivered at completion\<close>

lemma strip_sentinels_unexpected:
  assumes "first_occurrence sv INTERNAL_TIMEOUT_SENTINEL k"
  shows "strip_sentinels sv 0
           = (take k sv @ strip_crlf (drop (k + length INTERNAL_TIMEOUT_SENTINEL) sv), 0, True)"
proof -
  have f: "str_find sv INTERNAL_TIMEOUT_SENTINEL = Some k" using assms by (simp add: str_find_iff)
  then have ne: "sv \<noteq> []" by (auto simp: INTERNAL_TIMEOUT_SENTINEL_def)
  have le: "k + length INTERNAL_TIMEOUT_SENTINEL \<le> length sv" using f by (rule str_find_le)
  show ?thesis using ne f
    by (simp add: strip_sentinels.simps[of sv] Let_def skip_crlf_drop[OF le])
qed

lemma timeout_result_same: "errBuf S' = errBuf S \<Longrightarrow> timeout_result S' = timeout_result S"
  by (simp add: timeout_result_def)

lemma timeout_result_errBuf:
  "timeout_result (S\<lparr>errBuf := X\<rparr>)
     = \<lparr>out = [], err = (if X = [] then ''timeout'' else X), exitCode = - 1, success = False,
        executionTime = 0\<rparr>"
  by (simp add: timeout_result_def)

lemma stderr_sentinel_trace:
  assumes q: "inflightOrder s = i # rest" and m: "inflight s i = Some S" and p: "prom S = None"
    and z: "pendingTimeoutSentinels s = 0"
    and f: "first_occurrence sv INTERNAL_TIMEOUT_SENTINEL k"
  shows "trace (onChunk now True sv s)
           = trace s @ Erased i
               # delivery S
                   (timeout_result
                      (S\<lparr>errBuf := errBuf S @ take k sv
                                     @ strip_crlf (drop (k + length INTERNAL_TIMEOUT_SENTINEL) sv)\<rparr>))"
proof -
  let ?rem = "take k sv @ strip_crlf (drop (k + length INTERNAL_TIMEOUT_SENTINEL) sv)"
  let ?S2 = "S\<lparr>timedOut := True, errBuf := errBuf S @ ?rem\<rparr>"
  have ne: "sv \<noteq> []" using f
    by (auto simp: str_find_iff[symmetric] INTERNAL_TIMEOUT_SENTINEL_def)
  have st: "strip_sentinels sv (pendingTimeoutSentinels s) = (?rem, 0, True)"
    unfolding z using f by (rule strip_sentinels_unexpected)
  have p2: "prom ?S2 = None" using p by simp
  have d: "delivery ?S2 (timeout_result ?S2)
            = delivery S (timeout_result (S\<lparr>errBuf := errBuf S @ ?rem\<rparr>))"
  proof -
    have "timeout_result ?S2 = timeout_result (S\<lparr>errBuf := errBuf S @ ?rem\<rparr>)"
      by (rule timeout_result_same) simp
    moreover have "delivery ?S2 = delivery S" by (rule ext) (rule delivery_same, simp_all)
    ultimately show ?thesis by simp
  qed
  have hd: "hd (inflightOrder s) = i" "inflightOrder s \<noteq> []" using q by simp_all
  have "onChunk now True sv s
          = fulfillTimeout (Some ?S2) False
              (s\<lparr>pendingTimeoutSentinels := 0, inflight := (inflight s)(i := None),
                 inflightOrder := drop_from_order i (inflightOrder s),
                 trace := trace s @ [Erased i]\<rparr>)"
  proof (cases "?rem = []")
    case True
    then have e: "?S2 = S\<lparr>timedOut := True\<rparr>" by simp
    show ?thesis unfolding e using ne m True
      by (simp add: onChunk_def onChunk_stderr_def Let_def st hd del: append_assoc append_is_Nil_conv)
  next
    case False
    then show ?thesis using ne m
      by (simp add: onChunk_def onChunk_stderr_def Let_def st hd del: append_assoc append_is_Nil_conv)
  qed
  then show ?thesis
    using fulfillTimeout_trace[OF p2] d by (simp add: delivery_def)
qed

text \<open>
  C2 (amended). A command completed by \<open>completeCmdLocked_\<close> (the end-marker path calls
  it with \<open>success = true\<close>, \<open>stop\<close> with \<open>false\<close>) gets the result of the completion
  rule: \<open>success = (not timed out and the success argument)\<close>, exit code \<open>0\<close> on success
  and \<open>-1\<close> otherwise, the accumulated out- and err-buffer (which leave the record), and
  the time elapsed since the start timestamp. The promise is satisfied with it, then the
  callback, if any, is called with it, whether or not the callback throws; a second
  completion attempt changes nothing and causes nothing. A command that times out, at
  its deadline or by an unexpected sentinel on stderr, is not completed by this rule
  but by \<open>fulfillTimeout_\<close>: its result is not successful, has exit code \<open>-1\<close>, no
  stdout, the err-buffer (or the word \<open>timeout\<close> when that is empty) as stderr and
  execution time \<open>0\<close>; the promise is satisfied with it and then the callback is called
  in the same way.
\<close>

theorem completion_results:
  assumes "\<not> is_done S" and "prom S = None"
  shows "completeCmdLocked now succ S =
           (S\<lparr>is_done := True, outBuf := [], errBuf := [],
              prom := Some \<lparr>out = outBuf S, err = errBuf S,
                            exitCode = (if succ \<and> \<not> timedOut S then 0 else - 1),
                            success = (succ \<and> \<not> timedOut S),
                            executionTime = now - tStart S\<rparr>\<rparr>,
            PromiseSet (cmd_id S)
              \<lparr>out = outBuf S, err = errBuf S,
               exitCode = (if succ \<and> \<not> timedOut S then 0 else - 1),
               success = (succ \<and> \<not> timedOut S),
               executionTime = now - tStart S\<rparr>
            # (case cb S of
                 None \<Rightarrow> []
               | Some c \<Rightarrow> [CallbackCalled (cmd_id S)
                              \<lparr>out = outBuf S, err = errBuf S,
                               exitCode = (if succ \<and> \<not> timedOut S then 0 else - 1),
                               success = (succ \<and> \<not> timedOut S),
                               executionTime = now - tStart S\<rparr>]))
         \<and> completeCmdLocked now' succ' (fst (completeCmdLocked now succ S))
             = (fst (completeCmdLocked now succ S), [])
         \<and> snd (completeCmdLocked now succ S) = delivery S (spec_completion now succ S)
         \<and> trace (fulfillTimeout (Some S) expectSentinel s)
             = trace s @
               PromiseSet (cmd_id S)
                 \<lparr>out = [], err = (if errBuf S = [] then ''timeout'' else errBuf S),
                  exitCode = - 1, success = False, executionTime = 0\<rparr>
               # (case cb S of
                    None \<Rightarrow> []
                  | Some c \<Rightarrow> [CallbackCalled (cmd_id S)
                                 \<lparr>out = [], err = (if errBuf S = [] then ''timeout'' else errBuf S),
                                  exitCode = - 1, success = False, executionTime = 0\<rparr>])
         \<and> (inflight s i = Some S \<longrightarrow>
              trace (timeoutOne i s)
                = trace s @ Erased i
                    # delivery S \<lparr>out = [], err = (if errBuf S = [] then ''timeout'' else errBuf S),
                                  exitCode = - 1, success = False, executionTime = 0\<rparr>)
         \<and> (inflightOrder s = i # rest \<and> inflight s i = Some S \<and> pendingTimeoutSentinels s = 0
              \<and> first_occurrence sv INTERNAL_TIMEOUT_SENTINEL k \<longrightarrow>
              trace (onChunk now True sv s)
                = trace s @ Erased i
                    # delivery S
                        \<lparr>out = [],
                         err = (if errBuf S @ take k sv
                                     @ strip_crlf (drop (k + length INTERNAL_TIMEOUT_SENTINEL) sv) = []
                                then ''timeout''
                                else errBuf S @ take k sv
                                     @ strip_crlf (drop (k + length INTERNAL_TIMEOUT_SENTINEL) sv)),
                         exitCode = - 1, success = False, executionTime = 0\<rparr>)"
proof (intro conjI impI)
  show "completeCmdLocked now succ S =
           (S\<lparr>is_done := True, outBuf := [], errBuf := [],
              prom := Some \<lparr>out = outBuf S, err = errBuf S,
                            exitCode = (if succ \<and> \<not> timedOut S then 0 else - 1),
                            success = (succ \<and> \<not> timedOut S),
                            executionTime = now - tStart S\<rparr>\<rparr>,
            PromiseSet (cmd_id S)
              \<lparr>out = outBuf S, err = errBuf S,
               exitCode = (if succ \<and> \<not> timedOut S then 0 else - 1),
               success = (succ \<and> \<not> timedOut S),
               executionTime = now - tStart S\<rparr>
            # (case cb S of
                 None \<Rightarrow> []
               | Some c \<Rightarrow> [CallbackCalled (cmd_id S)
                              \<lparr>out = outBuf S, err = errBuf S,
                               exitCode = (if succ \<and> \<not> timedOut S then 0 else - 1),
                               success = (succ \<and> \<not> timedOut S),
                               executionTime = now - tStart S\<rparr>]))"
    using assms
    by (cases "cb S") (simp_all add: completeCmdLocked_def Let_def resolve_and_notify_fresh)
  show "completeCmdLocked now' succ' (fst (completeCmdLocked now succ S))
             = (fst (completeCmdLocked now succ S), [])"
    using assms
    by (cases "cb S") (simp_all add: completeCmdLocked_def Let_def resolve_and_notify_fresh)
  show "snd (completeCmdLocked now succ S) = delivery S (spec_completion now succ S)"
    using assms
    by (cases "cb S")
       (auto simp: completeCmdLocked_def Let_def resolve_and_notify_fresh delivery_def
          spec_completion_def)
  show "trace (fulfillTimeout (Some S) expectSentinel s)
             = trace s @
               PromiseSet (cmd_id S)
                 \<lparr>out = [], err = (if errBuf S = [] then ''timeout'' else errBuf S),
                  exitCode = - 1, success = False, executionTime = 0\<rparr>
               # (case cb S of
                    None \<Rightarrow> []
                  | Some c \<Rightarrow> [CallbackCalled (cmd_id S)
                                 \<lparr>out = [], err = (if errBuf S = [] then ''timeout'' else errBuf S),
                                  exitCode = - 1, success = False, executionTime = 0\<rparr>])"
    using fulfillTimeout_trace[OF assms(2), of expectSentinel s]
    by (cases "cb S") (simp_all add: timeout_result_def)
next
  assume "inflight s i = Some S"
  from timeoutOne_order[OF this assms(2)]
  show "trace (timeoutOne i s)
                = trace s @ Erased i
                    # delivery S \<lparr>out = [], err = (if errBuf S = [] then ''timeout'' else errBuf S),
                                  exitCode = - 1, success = False, executionTime = 0\<rparr>"
    by (simp add: timeout_result_def)
next
  assume h: "inflightOrder s = i # rest \<and> inflight s i = Some S \<and> pendingTimeoutSentinels s = 0
              \<and> first_occurrence sv INTERNAL_TIMEOUT_SENTINEL k"
  then have a: "inflightOrder s = i # rest" "inflight s i = Some S" "pendingTimeoutSentinels s = 0"
    "first_occurrence sv INTERNAL_TIMEOUT_SENTINEL k" by blast+
  from stderr_sentinel_trace[OF a(1,2) assms(2) a(3,4), of now]
  show "trace (onChunk now True sv s)
                = trace s @ Erased i
                    # delivery S
                        \<lparr>out = [],
                         err = (if errBuf S @ take k sv
                                     @ strip_crlf (drop (k + length INTERNAL_TIMEOUT_SENTINEL) sv) = []
                                then ''timeout''
                                else errBuf S @ take k sv
                                     @ strip_crlf (drop (k + length INTERNAL_TIMEOUT_SENTINEL) sv)),
                         exitCode = - 1, success = False, executionTime = 0\<rparr>"
    unfolding timeout_result_errBuf .
qed

theorem completion_results_witness:
  "completeCmdLocked 12 True cmd1 =
     (cmd1\<lparr>is_done := True, outBuf := [], errBuf := [],
           prom := Some \<lparr>out = ''hi'', err = ''warn'', exitCode = 0, success = True,
                         executionTime = 7\<rparr>\<rparr>,
      [PromiseSet 1 \<lparr>out = ''hi'', err = ''warn'', exitCode = 0, success = True,
                     executionTime = 7\<rparr>,
       CallbackCalled 1 \<lparr>out = ''hi'', err = ''warn'', exitCode = 0, success = True,
                         executionTime = 7\<rparr>])
   \<and> completeCmdLocked 20 False (fst (completeCmdLocked 12 True cmd1))
       = (fst (completeCmdLocked 12 True cmd1), [])
   \<and> trace (fulfillTimeout (Some cmd1) True shell0)
       = [PromiseSet 1 \<lparr>out = [], err = ''warn'', exitCode = - 1, success = False,
                        executionTime = 0\<rparr>,
          CallbackCalled 1 \<lparr>out = [], err = ''warn'', exitCode = - 1, success = False,
                            executionTime = 0\<rparr>]
   \<and> trace (timeoutOne 1 shell1)
       = [Erased 1,
          PromiseSet 1 \<lparr>out = [], err = ''warn'', exitCode = - 1, success = False,
                        executionTime = 0\<rparr>,
          CallbackCalled 1 \<lparr>out = [], err = ''warn'', exitCode = - 1, success = False,
                            executionTime = 0\<rparr>]
   \<and> trace (onChunk 12 True (''oops__VS_INTERNAL_TIMEOUT__'' @ [NL]) shell1)
       = [Erased 1,
          PromiseSet 1 \<lparr>out = [], err = ''warnoops'', exitCode = - 1, success = False,
                        executionTime = 0\<rparr>,
          CallbackCalled 1 \<lparr>out = [], err = ''warnoops'', exitCode = - 1, success = False,
                            executionTime = 0\<rparr>]"
proof -
  let ?sv = "''oops__VS_INTERNAL_TIMEOUT__'' @ [NL]"
  have h: "\<not> is_done cmd1" "prom cmd1 = None" by (simp_all add: cmd1_def)
  have v: "outBuf cmd1 = ''hi''" "errBuf cmd1 = ''warn''" "\<not> timedOut cmd1" "tStart cmd1 = 5"
    "cmd_id cmd1 = 1" "cb cmd1 = Some (Callback True)"
    by (simp_all add: cmd1_def)
  note t = completion_results [OF h, where now = 12 and succ = True and now' = 20 and succ' = False
      and expectSentinel = True]
  from t [THEN conjunct1] have c1: "completeCmdLocked 12 True cmd1 =
     (cmd1\<lparr>is_done := True, outBuf := [], errBuf := [],
           prom := Some \<lparr>out = ''hi'', err = ''warn'', exitCode = 0, success = True,
                         executionTime = 7\<rparr>\<rparr>,
      [PromiseSet 1 \<lparr>out = ''hi'', err = ''warn'', exitCode = 0, success = True,
                     executionTime = 7\<rparr>,
       CallbackCalled 1 \<lparr>out = ''hi'', err = ''warn'', exitCode = 0, success = True,
                         executionTime = 7\<rparr>])"
    by (simp add: v)
  note c2 = t [THEN conjunct2, THEN conjunct1]
  from t [where s = shell0, THEN conjunct2, THEN conjunct2, THEN conjunct2, THEN conjunct1]
  have c3: "trace (fulfillTimeout (Some cmd1) True shell0)
       = [PromiseSet 1 \<lparr>out = [], err = ''warn'', exitCode = - 1, success = False,
                        executionTime = 0\<rparr>,
          CallbackCalled 1 \<lparr>out = [], err = ''warn'', exitCode = - 1, success = False,
                            executionTime = 0\<rparr>]"
    by (simp add: v shell0_def)
  have m: "inflight shell1 1 = Some cmd1" by (simp add: shell1_fields)
  from t [where s = shell1 and i = 1, THEN conjunct2, THEN conjunct2, THEN conjunct2,
      THEN conjunct2, THEN conjunct1, rule_format, OF m]
  have c4: "trace (timeoutOne 1 shell1)
       = [Erased 1,
          PromiseSet 1 \<lparr>out = [], err = ''warn'', exitCode = - 1, success = False,
                        executionTime = 0\<rparr>,
          CallbackCalled 1 \<lparr>out = [], err = ''warn'', exitCode = - 1, success = False,
                            executionTime = 0\<rparr>]"
    by (simp add: v shell1_fields delivery_def)
  have f: "first_occurrence ?sv INTERNAL_TIMEOUT_SENTINEL 4"
    unfolding str_find_iff[symmetric] by (simp add: INTERNAL_TIMEOUT_SENTINEL_def NL_def)
  have g: "inflightOrder shell1 = 1 # [] \<and> inflight shell1 1 = Some cmd1
        \<and> pendingTimeoutSentinels shell1 = 0
        \<and> first_occurrence ?sv INTERNAL_TIMEOUT_SENTINEL 4"
    using f by (simp add: shell1_fields shell1_def shell0_def)
  have r: "take 4 ?sv @ strip_crlf (drop (4 + length INTERNAL_TIMEOUT_SENTINEL) ?sv) = ''oops''"
    by (simp add: strip_crlf_def INTERNAL_TIMEOUT_SENTINEL_def NL_def CR_def)
  from t [where s = shell1 and i = 1 and rest = "[]" and sv = ?sv and k = 4,
      THEN conjunct2, THEN conjunct2, THEN conjunct2, THEN conjunct2, THEN conjunct2,
      rule_format, OF g]
  have c5: "trace (onChunk 12 True ?sv shell1)
       = [Erased 1,
          PromiseSet 1 \<lparr>out = [], err = ''warnoops'', exitCode = - 1, success = False,
                        executionTime = 0\<rparr>,
          CallbackCalled 1 \<lparr>out = [], err = ''warnoops'', exitCode = - 1, success = False,
                            executionTime = 0\<rparr>]"
    unfolding r by (simp add: v shell1_fields delivery_def)
  from c1 c2 c3 c4 c5 show ?thesis by blast
qed

text \<open>
  Command 1 has collected the output \<open>hi\<close> and started at tick 5 when the deadline scan
  times it out at its deadline, 30 seconds later: the delivered result has no stdout and
  execution time \<open>0\<close>, where the completion rule gives \<open>hi\<close> and the 30 seconds elapsed.
\<close>

theorem timeout_completion_counterexample:
  "inflight shell1 1 = Some cmd1
   \<and> trace (timeoutScan_pass 30000000005 shell1)
       = [Erased 1,
          PromiseSet 1 \<lparr>out = [], err = ''warn'', exitCode = - 1, success = False,
                        executionTime = 0\<rparr>,
          CallbackCalled 1 \<lparr>out = [], err = ''warn'', exitCode = - 1, success = False,
                            executionTime = 0\<rparr>]
   \<and> spec_completion 30000000005 False (cmd1\<lparr>timedOut := True\<rparr>)
       = \<lparr>out = ''hi'', err = ''warn'', exitCode = - 1, success = False, executionTime = 30000000000\<rparr>
   \<and> \<lparr>out = [], err = ''warn'', exitCode = - 1, success = False, executionTime = 0\<rparr>
       \<noteq> spec_completion 30000000005 False (cmd1\<lparr>timedOut := True\<rparr>)"
proof -
  have a: "inflight shell1 1 = Some cmd1" "prom cmd1 = None"
    by (simp_all add: shell1_fields cmd1_fields)
  have e: "toExpire 30000000005 shell1 = [1]"
    by (simp add: toExpire_def shell1_def shell0_def cmd1_def)
  have d: "delivery cmd1 (timeout_result cmd1)
     = [PromiseSet 1 \<lparr>out = [], err = ''warn'', exitCode = - 1, success = False,
                      executionTime = 0\<rparr>,
        CallbackCalled 1 \<lparr>out = [], err = ''warn'', exitCode = - 1, success = False,
                          executionTime = 0\<rparr>]"
    by (simp add: delivery_def timeout_result_def cmd1_fields)
  have t: "trace (timeoutScan_pass 30000000005 shell1)
     = [Erased 1,
        PromiseSet 1 \<lparr>out = [], err = ''warn'', exitCode = - 1, success = False,
                      executionTime = 0\<rparr>,
        CallbackCalled 1 \<lparr>out = [], err = ''warn'', exitCode = - 1, success = False,
                          executionTime = 0\<rparr>]"
    unfolding timeoutScan_pass_def e using timeoutOne_order[OF a, THEN conjunct2] d
    by (simp add: shell1_fields)
  have s: "spec_completion 30000000005 False (cmd1\<lparr>timedOut := True\<rparr>)
       = \<lparr>out = ''hi'', err = ''warn'', exitCode = - 1, success = False, executionTime = 30000000000\<rparr>"
    by (simp add: spec_completion_def cmd1_fields)
  have n: "\<lparr>out = [], err = ''warn'', exitCode = - 1, success = False, executionTime = 0\<rparr>
       \<noteq> spec_completion 30000000005 False (cmd1\<lparr>timedOut := True\<rparr>)"
    unfolding s by simp
  from a(1) t s n show ?thesis by blast
qed

end
